theory Spec2Isabelle
  imports Main "HOL-Library.Word" "HOL-Library.Multiset" "HOL-Library.Product_Lexorder"
begin

section \<open>The focus-history list of the swayctrl daemon\<close>

text \<open>
  The daemon keeps a doubly linked list of \<open>mruElt\<close> objects together with a map from
  window identifier to the object of that window. The objects are shared through
  pointers, so the model has an explicit store: \<open>elts\<close> maps the address of an object
  to its fields, and \<open>nalloc\<close> is the next address the allocator hands out. A nil
  pointer is \<open>None\<close>. A field is named after the variable the source reads it from:
  \<open>e.prev\<close> is \<open>e_prev\<close>, \<open>l.head\<close> is \<open>l_head\<close>.
\<close>

type_synonym int64 = "64 word"
type_synonym addr = nat

datatype error = Panic string | Fatal string

record mruElt =
  e_prev :: "addr option"
  e_next :: "addr option"
  e_id :: int64
  e_appID :: string

record windowMRUList =
  l_head :: "addr option"
  l_m :: "int64 \<rightharpoonup> addr"
  elts :: "addr \<Rightarrow> mruElt"
  nalloc :: addr

record listWindow =
  ID :: int64
  AppID :: string

text \<open>Assignments to a single field of the object at an address.\<close>

definition set_prev :: "addr \<Rightarrow> addr option \<Rightarrow> (addr \<Rightarrow> mruElt) \<Rightarrow> (addr \<Rightarrow> mruElt)" where
  "set_prev a v h = h(a := (h a)\<lparr>e_prev := v\<rparr>)"

definition set_next :: "addr \<Rightarrow> addr option \<Rightarrow> (addr \<Rightarrow> mruElt) \<Rightarrow> (addr \<Rightarrow> mruElt)" where
  "set_next a v h = h(a := (h a)\<lparr>e_next := v\<rparr>)"

definition set_appID :: "addr \<Rightarrow> string \<Rightarrow> (addr \<Rightarrow> mruElt) \<Rightarrow> (addr \<Rightarrow> mruElt)" where
  "set_appID a v h = h(a := (h a)\<lparr>e_appID := v\<rparr>)"

text \<open>The zero \<open>mruElt\<close>, and the list of \<open>newDaemonHandler\<close>: a nil head and
  an empty map.\<close>

definition zeroElt :: mruElt where
  "zeroElt = \<lparr>e_prev = None, e_next = None, e_id = 0, e_appID = []\<rparr>"

definition newList :: windowMRUList where
  "newList = \<lparr>l_head = None, l_m = Map.empty, elts = (\<lambda>_. zeroElt), nalloc = 0\<rparr>"

text \<open>\<open>lookup_or_new\<close> is the first statement of \<open>bringFront\<close>: the object of the
  identifier, allocated and entered into the map when the identifier is unknown.\<close>

definition lookup_or_new :: "int64 \<Rightarrow> windowMRUList \<Rightarrow> addr \<times> windowMRUList" where
  "lookup_or_new wid l =
     (case l_m l wid of
        Some e \<Rightarrow> (e, l)
      | None \<Rightarrow>
          (let e = nalloc l
           in (e, l\<lparr>elts := (elts l)(e := zeroElt\<lparr>e_id := wid\<rparr>),
                     nalloc := Suc e,
                     l_m := (l_m l)(wid \<mapsto> e)\<rparr>)))"

definition bringFront :: "int64 \<Rightarrow> string \<Rightarrow> windowMRUList \<Rightarrow> windowMRUList" where
  "bringFront wid appID l0 =
     (let (e, l) = lookup_or_new wid l0;
          h = set_appID e appID (elts l)
      in if l_head l = Some e then l\<lparr>elts := h\<rparr>
         else
           (let h1 = (case e_prev (h e) of Some p \<Rightarrow> set_next p (e_next (h e)) h | None \<Rightarrow> h);
                h2 = (case e_next (h1 e) of Some n \<Rightarrow> set_prev n (e_prev (h1 e)) h1 | None \<Rightarrow> h1);
                h3 = set_prev e None h2;
                h4 = set_next e (l_head l) h3;
                h5 = (case e_next (h4 e) of Some n \<Rightarrow> set_prev n (Some e) h4 | None \<Rightarrow> h4)
            in l\<lparr>elts := h5, l_head := Some e\<rparr>))"

definition delete :: "int64 \<Rightarrow> windowMRUList \<Rightarrow> windowMRUList" where
  "delete wid l =
     (case l_m l wid of
        None \<Rightarrow> l
      | Some e \<Rightarrow>
          (let h = elts l;
               h1 = (case e_prev (h e) of Some p \<Rightarrow> set_next p (e_next (h e)) h | None \<Rightarrow> h);
               h2 = (case e_next (h1 e) of Some n \<Rightarrow> set_prev n (e_prev (h1 e)) h1 | None \<Rightarrow> h1)
           in l\<lparr>l_m := (l_m l)(wid := None),
                elts := h2,
                l_head := (if l_head l = Some e then e_next (h2 e) else l_head l)\<rparr>))"

text \<open>The loop of \<open>all\<close>: \<open>i\<close> counts the objects visited, and the visit of object
  number 101 panics. The counter bounds the loop, whatever the pointers are.\<close>

function all_loop ::
  "(addr \<Rightarrow> mruElt) \<Rightarrow> addr option \<Rightarrow> nat \<Rightarrow> listWindow list \<Rightarrow> error + listWindow list" where
  "all_loop h None i nodes = Inr nodes"
| "all_loop h (Some e) i nodes =
     (if i + 1 > 100 then Inl (Panic ''boom'')
      else all_loop h (e_next (h e)) (i + 1)
             (nodes @ [\<lparr>ID = e_id (h e), AppID = e_appID (h e)\<rparr>]))"
  by pat_completeness auto
termination
  by (relation "measure (\<lambda>(h, p, i, nodes). 101 - i)") auto

definition all :: "windowMRUList \<Rightarrow> error + listWindow list" where
  "all l = all_loop (elts l) (l_head l) 0 []"

section \<open>The window tree and the event handler of the daemon\<close>

text \<open>
  Modelled from the spec: the window tree, whose nodes have floating and stacked
  children, and the window events. \<open>sway.Node\<close> and \<open>sway.WindowEvent\<close> are declared by
  the go-sway library, not by this repository; the model keeps the fields the program
  reads. Nodes are handled through pointers and \<open>cmdAppNext\<close> compares two of them with
  \<open>==\<close>, so every node carries the address of its object (\<open>Node_ptr\<close>); \<open>AppID\<close> and
  \<open>Visible\<close> are pointers that may be nil.
\<close>

datatype NodeType = NodeRoot | NodeOutput | NodeWorkspace | NodeCon | NodeFloatingCon

datatype Node = Node
  (Node_ptr: addr)
  (Node_ID: int64)
  (Node_Name: string)
  (Node_Type: NodeType)
  (Node_AppID: "string option")
  (Node_Visible: "bool option")
  (Node_FloatingNodes: "Node list")
  (Node_Nodes: "Node list")

datatype WindowEventChange =
  WindowNew | WindowClose | WindowFocus | WindowTitle | WindowFullscreenMode
  | WindowMove | WindowFloating | WindowUrgent | WindowMark

record WindowEvent =
  ev_Change :: WindowEventChange
  ev_Container :: Node

record daemonHandler =
  h_verbose :: bool
  h_list :: windowMRUList

definition newDaemonHandler :: "bool \<Rightarrow> daemonHandler" where
  "newDaemonHandler verbose = \<lparr>h_verbose = verbose, h_list = newList\<rparr>"

text \<open>The verbose log line of \<open>Window\<close> formats \<open>h.list.all()\<close>; only a panic of \<open>all\<close> is
  visible in the model.\<close>

definition verbose_log :: "daemonHandler \<Rightarrow> error + daemonHandler" where
  "verbose_log h =
     (if h_verbose h then (case all (h_list h) of Inl err \<Rightarrow> Inl err | Inr _ \<Rightarrow> Inr h)
      else Inr h)"

definition Window :: "WindowEvent \<Rightarrow> daemonHandler \<Rightarrow> error + daemonHandler" where
  "Window e h =
     (case ev_Change e of
        WindowFocus \<Rightarrow>
          (let c = ev_Container e;
               appID = (if Node_AppID c \<noteq> None \<and> the (Node_AppID c) \<noteq> []
                        then the (Node_AppID c) else ''?'')
           in verbose_log (h\<lparr>h_list := bringFront (Node_ID c) appID (h_list h)\<rparr>))
      | WindowClose \<Rightarrow>
          verbose_log (h\<lparr>h_list := delete (Node_ID (ev_Container e)) (h_list h)\<rparr>)
      | _ \<Rightarrow> Inr h)"

text \<open>The handler of the query socket answers with the snapshot.\<close>

definition handle :: "daemonHandler \<Rightarrow> error + listWindow list" where
  "handle h = all (h_list h)"

text \<open>The subscription delivers the events one after the other; a panic ends the daemon.\<close>

fun subscribe :: "WindowEvent list \<Rightarrow> daemonHandler \<Rightarrow> error + daemonHandler" where
  "subscribe [] h = Inr h"
| "subscribe (e # es) h = (case Window e h of Inl err \<Rightarrow> Inl err | Inr h' \<Rightarrow> subscribe es h')"

subsection \<open>Selecting nodes of the tree\<close>

text \<open>\<open>walkTree\<close> calls \<open>fn\<close> on the node, then walks the floating children, then the
  other children. The callback of \<open>treeSelect\<close> appends to \<open>matches\<close>, so the callback
  takes and returns the state it changes.\<close>

fun walkTree :: "Node \<Rightarrow> (Node \<Rightarrow> 's \<Rightarrow> 's) \<Rightarrow> 's \<Rightarrow> 's" where
  "walkTree (Node p i nm ty app vis fl ns) fn s =
     foldl (\<lambda>s n. walkTree n fn s)
       (foldl (\<lambda>s n. walkTree n fn s) (fn (Node p i nm ty app vis fl ns) s) fl) ns"

definition treeSelect :: "Node \<Rightarrow> (Node \<Rightarrow> bool) \<Rightarrow> Node list" where
  "treeSelect node fn = walkTree node (\<lambda>n matches. if fn n then matches @ [n] else matches) []"

text \<open>The predicate of \<open>cmdFocus\<close>. \<open>titleRE\<close> is the compiled \<open>-title\<close> pattern (nil when
  the flag is empty), represented by its \<open>MatchString\<close>; \<open>appID\<close> is the \<open>-appid\<close> flag.\<close>

definition pick :: "(string \<Rightarrow> bool) option \<Rightarrow> string \<Rightarrow> Node \<Rightarrow> bool" where
  "pick titleRE appID n =
     (if Node_Type n \<noteq> NodeCon \<and> Node_Type n \<noteq> NodeFloatingCon then False
      else if titleRE \<noteq> None \<and> \<not> (the titleRE) (Node_Name n) then False
      else if appID \<noteq> [] \<and> (Node_AppID n = None \<or> the (Node_AppID n) \<noteq> appID) then False
      else True)"

text \<open>The predicate of \<open>cmdAppNext\<close>, for the application id of the focused node.\<close>

definition sameApp :: "string \<Rightarrow> Node \<Rightarrow> bool" where
  "sameApp focusedAppID n = (Node_AppID n \<noteq> None \<and> the (Node_AppID n) = focusedAppID)"

text \<open>What a command does to the compositor: it runs \<open>[con_id=N] focus\<close> (a failure of
  the IPC call is fatal and outside the model), it returns without a command, or it only
  writes a log line.\<close>

datatype action = RunFocus int64 | NoCommand | LogLine string

subsection \<open>The focus command\<close>

text \<open>The comparison that \<open>focusExisting\<close> passes to the sort. Dereferencing a nil
  \<open>Visible\<close> panics.\<close>

definition lessMRU :: "(int64 \<rightharpoonup> nat) \<Rightarrow> Node \<Rightarrow> Node \<Rightarrow> error + bool" where
  "lessMRU idToMRUIdx n0 n1 =
     (case (Node_Visible n0, Node_Visible n1) of
        (Some v0, Some v1) \<Rightarrow>
          if v0 \<noteq> v1 then Inr v0
          else
            (let ok0 = (idToMRUIdx (Node_ID n0) \<noteq> None);
                 ok1 = (idToMRUIdx (Node_ID n1) \<noteq> None)
             in if ok0 \<noteq> ok1 then Inr ok0
                else if \<not> ok0 then Inr False
                else Inr (the (idToMRUIdx (Node_ID n0)) < the (idToMRUIdx (Node_ID n1))))
      | _ \<Rightarrow> Inl (Panic ''nil pointer dereference''))"

text \<open>
  Modelled from the spec: the ranking is a stable sort. \<open>slices.SortStableFunc\<close> belongs
  to the library golang.org/x/exp/slices, not to this repository. The model is the stable
  insertion sort: each element in turn moves towards the front as long as it is less
  than its left neighbour. The sorted prefix is kept reversed, nearest neighbour first.
  A panic of the comparison ends the sort.
\<close>

fun insertBack :: "('a \<Rightarrow> 'a \<Rightarrow> error + bool) \<Rightarrow> 'a \<Rightarrow> 'a list \<Rightarrow> error + 'a list" where
  "insertBack lt x [] = Inr [x]"
| "insertBack lt x (y # ys) =
     (case lt x y of
        Inl err \<Rightarrow> Inl err
      | Inr True \<Rightarrow> (case insertBack lt x ys of Inl err \<Rightarrow> Inl err | Inr r \<Rightarrow> Inr (y # r))
      | Inr False \<Rightarrow> Inr (x # y # ys))"

fun insertionSort :: "('a \<Rightarrow> 'a \<Rightarrow> error + bool) \<Rightarrow> 'a list \<Rightarrow> 'a list \<Rightarrow> error + 'a list" where
  "insertionSort lt [] acc = Inr (rev acc)"
| "insertionSort lt (x # xs) acc =
     (case insertBack lt x acc of Inl err \<Rightarrow> Inl err | Inr acc' \<Rightarrow> insertionSort lt xs acc')"

definition SortStableFunc :: "'a list \<Rightarrow> ('a \<Rightarrow> 'a \<Rightarrow> error + bool) \<Rightarrow> error + 'a list" where
  "SortStableFunc x lt = insertionSort lt x []"

text \<open>\<open>focusExisting\<close> on the tree that \<open>GetTree\<close> returned: the result flag \<open>ok\<close> and
  the command.\<close>

definition focusExisting :: "Node \<Rightarrow> (int64 \<rightharpoonup> nat) \<Rightarrow> (Node \<Rightarrow> bool) \<Rightarrow> error + bool \<times> action" where
  "focusExisting root idToMRUIdx pck =
     (let matches = treeSelect root pck
      in if length matches = 0 then Inr (False, NoCommand)
         else (case SortStableFunc matches (lessMRU idToMRUIdx) of
                 Inl err \<Rightarrow> Inl err
               | Inr matches' \<Rightarrow> Inr (True, RunFocus (Node_ID (matches' ! 0)))))"

text \<open>The map from identifier to position that \<open>cmdFocus\<close> builds from the list of the
  daemon.\<close>

fun idToMRUIdx_loop :: "nat \<Rightarrow> listWindow list \<Rightarrow> (int64 \<rightharpoonup> nat) \<Rightarrow> (int64 \<rightharpoonup> nat)" where
  "idToMRUIdx_loop i [] m = m"
| "idToMRUIdx_loop i (w # ws) m = idToMRUIdx_loop (i + 1) ws (m(ID w \<mapsto> i))"

definition idToMRUIdx_of :: "listWindow list \<Rightarrow> (int64 \<rightharpoonup> nat)" where
  "idToMRUIdx_of mruList = idToMRUIdx_loop 0 mruList Map.empty"

subsection \<open>The appnext and prev commands\<close>

fun IndexFunc :: "'a list \<Rightarrow> ('a \<Rightarrow> bool) \<Rightarrow> int" where
  "IndexFunc [] f = - 1"
| "IndexFunc (x # xs) f =
     (if f x then 0 else (let i = IndexFunc xs f in if i < 0 then - 1 else i + 1))"

text \<open>\<open>cmdAppNext\<close> on the tree and on the result of the library's \<open>root.FocusedNode()\<close>.\<close>

definition cmdAppNext :: "Node \<Rightarrow> Node option \<Rightarrow> error + action" where
  "cmdAppNext root focused =
     (case focused of
        None \<Rightarrow> Inl (Fatal ''No focused node'')
      | Some f \<Rightarrow>
          (case Node_AppID f of
             None \<Rightarrow> Inl (Fatal ''Focused node is not a container with an app ID'')
           | Some focusedAppID \<Rightarrow>
               (let matches = treeSelect root (sameApp focusedAppID)
                in if length matches < 2 then Inr NoCommand
                   else
                     (let i = IndexFunc matches (\<lambda>n. Node_ptr n = Node_ptr f)
                      in if i < 0 then Inl (Fatal ''Inconsistent tree?'')
                         else
                           (let j = (i + 1) mod int (length matches)
                            in Inr (RunFocus (Node_ID (matches ! nat j))))))))"

text \<open>The loop of \<open>cmdPrev\<close> over the list of the daemon, and the command on the result of
  \<open>root.FocusedNode()\<close>.\<close>

fun prev_loop :: "int64 \<Rightarrow> listWindow list \<Rightarrow> action" where
  "prev_loop focusedID [] = LogLine ''No other window to focus''"
| "prev_loop focusedID (w # ws) =
     (if ID w = focusedID then prev_loop focusedID ws else RunFocus (ID w))"

definition cmdPrev :: "listWindow list \<Rightarrow> Node option \<Rightarrow> error + action" where
  "cmdPrev mruList focused =
     (case focused of
        None \<Rightarrow> Inl (Fatal ''No focused node'')
      | Some f \<Rightarrow> Inr (prev_loop (Node_ID f) mruList))"

subsection \<open>The lock file of the daemon\<close>

text \<open>
  Modelled from the spec: an exclusive, non-blocking lock tied to a path. \<open>lockFile\<close>
  opens the file and calls \<open>flock(2)\<close> with \<open>LOCK_EX|LOCK_NB\<close>; the operating system is
  the environment of the program. Its state records which paths can be opened, the open
  file descriptions with the path of their file, and which description holds the
  exclusive lock of a file. \<open>Flock\<close> follows the manual page: a request that conflicts
  with the lock of another description fails with \<open>EWOULDBLOCK\<close> when \<open>LOCK_NB\<close> is set and
  waits for the holder otherwise. A path stands for the file it names; how \<open>cmdDaemon\<close>
  computes the path of the lock file from the runtime directory is not part of the model.
\<close>

unbundle bit_operations_syntax

type_synonym fd = nat

record os_state =
  openable :: "string \<Rightarrow> bool"
  descriptions :: "fd \<rightharpoonup> string"
  flocks :: "string \<rightharpoonup> fd"
  next_fd :: fd

datatype errno = ENOENT | EBADF | EWOULDBLOCK

definition OpenFile :: "string \<Rightarrow> os_state \<Rightarrow> errno + fd \<times> os_state" where
  "OpenFile path os =
     (if openable os path
      then Inr (next_fd os,
                os\<lparr>descriptions := (descriptions os)(next_fd os \<mapsto> path),
                    next_fd := Suc (next_fd os)\<rparr>)
      else Inl ENOENT)"

definition Close :: "fd \<Rightarrow> os_state \<Rightarrow> os_state" where
  "Close f os =
     (case descriptions os f of
        None \<Rightarrow> os
      | Some path \<Rightarrow>
          os\<lparr>descriptions := (descriptions os)(f := None),
              flocks := (if flocks os path = Some f then (flocks os)(path := None) else flocks os)\<rparr>)"

definition LOCK_EX :: int where "LOCK_EX = 2"
definition LOCK_NB :: int where "LOCK_NB = 4"
definition LOCK_UN :: int where "LOCK_UN = 8"

datatype flock_result = Returns "errno option" os_state | Waits

definition Flock :: "fd \<Rightarrow> int \<Rightarrow> os_state \<Rightarrow> flock_result" where
  "Flock f how os =
     (case descriptions os f of
        None \<Rightarrow> Returns (Some EBADF) os
      | Some path \<Rightarrow>
          if how AND LOCK_UN \<noteq> 0
          then Returns None
                 (if flocks os path = Some f then os\<lparr>flocks := (flocks os)(path := None)\<rparr> else os)
          else if flocks os path = None \<or> flocks os path = Some f
          then Returns None (os\<lparr>flocks := (flocks os)(path \<mapsto> f)\<rparr>)
          else if how AND LOCK_NB \<noteq> 0 then Returns (Some EWOULDBLOCK) os
          else Waits)"

text \<open>The result of \<open>lockFile\<close>: the lock, held through the open file; the message of
  \<open>log.Fatal\<close>, with which the process exits; or a call that has not returned.\<close>

datatype startup = Locked fd | Exits string | Blocked

definition lockFile :: "string \<Rightarrow> os_state \<Rightarrow> startup \<times> os_state" where
  "lockFile path os =
     (case OpenFile path os of
        Inl err \<Rightarrow> (Exits ''Error creating lock file:'', os)
      | Inr (f, os1) \<Rightarrow>
          (case Flock f (LOCK_EX OR LOCK_NB) os1 of
             Waits \<Rightarrow> (Blocked, os1)
           | Returns (Some err) os2 \<Rightarrow>
               (Exits ''Lockfile locked (is another instance running?)'', Close f os2)
           | Returns None os2 \<Rightarrow> (Locked f, os2)))"

text \<open>A system in which every path can be opened and no file is open.\<close>

definition os_idle :: os_state where
  "os_idle = \<lparr>openable = (\<lambda>_. True), descriptions = Map.empty, flocks = Map.empty, next_fd = 3\<rparr>"

section \<open>Notions used to state the properties\<close>

subsection \<open>The list as a sequence\<close>

text \<open>The \<open>next\<close>, \<open>prev\<close> and \<open>id\<close> fields of a store, and the record a snapshot shows
  for an object.\<close>

definition nexts :: "(addr \<Rightarrow> mruElt) \<Rightarrow> addr \<Rightarrow> addr option" where
  "nexts h a = e_next (h a)"

definition prevs :: "(addr \<Rightarrow> mruElt) \<Rightarrow> addr \<Rightarrow> addr option" where
  "prevs h a = e_prev (h a)"

definition ids :: "(addr \<Rightarrow> mruElt) \<Rightarrow> addr \<Rightarrow> int64" where
  "ids h a = e_id (h a)"

definition view :: "(addr \<Rightarrow> mruElt) \<Rightarrow> addr \<Rightarrow> listWindow" where
  "view h a = \<lparr>ID = e_id (h a), AppID = e_appID (h a)\<rparr>"

text \<open>\<open>path f p as q\<close>: following \<open>f\<close> from \<open>p\<close> visits the objects \<open>as\<close> and arrives at
  \<open>q\<close>. \<open>backlinks g p as\<close>: the \<open>g\<close> field of every object of \<open>as\<close> is its
  predecessor, \<open>p\<close> for the first.\<close>

primrec path :: "(addr \<Rightarrow> addr option) \<Rightarrow> addr option \<Rightarrow> addr list \<Rightarrow> addr option \<Rightarrow> bool" where
  "path f p [] q \<longleftrightarrow> p = q"
| "path f p (a # as) q \<longleftrightarrow> p = Some a \<and> path f (f a) as q"

primrec backlinks :: "(addr \<Rightarrow> addr option) \<Rightarrow> addr option \<Rightarrow> addr list \<Rightarrow> bool" where
  "backlinks g p [] \<longleftrightarrow> True"
| "backlinks g p (a # as) \<longleftrightarrow> g a = p \<and> backlinks g (Some a) as"

text \<open>The invariant of the data model: \<open>as\<close> are the objects from the head to the end,
  each once, linked in both directions, and the map holds exactly their identifiers.\<close>

definition linked :: "windowMRUList \<Rightarrow> addr list \<Rightarrow> bool" where
  "linked l as \<longleftrightarrow>
     path (nexts (elts l)) (l_head l) as None \<and>
     backlinks (prevs (elts l)) None as \<and>
     distinct as \<and>
     (\<forall>a \<in> set as. a < nalloc l) \<and>
     (\<forall>k a. l_m l k = Some a \<longleftrightarrow> a \<in> set as \<and> ids (elts l) a = k)"

text \<open>\<open>entries\<close> reads the records from the head to the end like \<open>all\<close>, without the
  counter. A list of distinct objects has at most \<open>nalloc\<close> of them, which bounds the walk.\<close>

fun walk :: "nat \<Rightarrow> (addr \<Rightarrow> mruElt) \<Rightarrow> addr option \<Rightarrow> listWindow list" where
  "walk 0 h p = []"
| "walk (Suc n) h None = []"
| "walk (Suc n) h (Some e) = \<lparr>ID = e_id (h e), AppID = e_appID (h e)\<rparr> # walk n h (e_next (h e))"

definition entries :: "windowMRUList \<Rightarrow> listWindow list" where
  "entries l = walk (nalloc l) (elts l) (l_head l)"

text \<open>A sequence of calls on the list of a new daemon. \<open>inserted_not_removed\<close> are the
  identifiers passed to \<open>bringFront\<close> and not passed to \<open>delete\<close> afterwards.\<close>

datatype call = BringFront int64 string | Remove int64

fun do_call :: "windowMRUList \<Rightarrow> call \<Rightarrow> windowMRUList" where
  "do_call l (BringFront wid appID) = bringFront wid appID l"
| "do_call l (Remove wid) = delete wid l"

definition run :: "call list \<Rightarrow> windowMRUList" where
  "run cs = foldl do_call newList cs"

fun call_id :: "call \<Rightarrow> int64" where
  "call_id (BringFront wid appID) = wid"
| "call_id (Remove wid) = wid"

fun inserted_not_removed :: "call list \<Rightarrow> int64 set" where
  "inserted_not_removed [] = {}"
| "inserted_not_removed (BringFront wid appID # cs) =
     (if Remove wid \<in> set cs then inserted_not_removed cs else insert wid (inserted_not_removed cs))"
| "inserted_not_removed (Remove wid # cs) = inserted_not_removed cs"

subsection \<open>The tree and the ranking\<close>

text \<open>The nodes of a tree in the order of \<open>walkTree\<close>.\<close>

fun tree_nodes :: "Node \<Rightarrow> Node list" where
  "tree_nodes (Node p i nm ty app vis fl ns) =
     Node p i nm ty app vis fl ns # concat (map tree_nodes fl) @ concat (map tree_nodes ns)"

text \<open>The rank of the specification: visible before not visible, then present in the MRU
  index before absent, then the smaller position. Triples are ordered lexicographically
  and \<open>False < True\<close>.\<close>

definition mru_rank :: "(int64 \<rightharpoonup> nat) \<Rightarrow> Node \<Rightarrow> bool \<times> bool \<times> nat" where
  "mru_rank idx n =
     (Node_Visible n \<noteq> Some True,
      idx (Node_ID n) = None,
      (case idx (Node_ID n) of None \<Rightarrow> 0 | Some i \<Rightarrow> i))"

subsection \<open>Events that end a record\<close>

text \<open>An event retires the record of a window when it closes the window or focuses it
  with an application id that is set and not empty.\<close>

definition retires :: "int64 \<Rightarrow> WindowEvent \<Rightarrow> bool" where
  "retires wid e \<longleftrightarrow>
     Node_ID (ev_Container e) = wid \<and>
     (ev_Change e = WindowClose \<or>
      (ev_Change e = WindowFocus \<and> Node_AppID (ev_Container e) \<noteq> None
       \<and> Node_AppID (ev_Container e) \<noteq> Some []))"

text \<open>Two events of the window 7: a focus event without application id, and a change of
  its title.\<close>

definition focus7 :: WindowEvent where
  "focus7 = \<lparr>ev_Change = WindowFocus, ev_Container = Node 0 7 ''xterm'' NodeCon None (Some True) [] []\<rparr>"

definition title7 :: WindowEvent where
  "title7 = \<lparr>ev_Change = WindowTitle, ev_Container = Node 0 7 ''vi'' NodeCon (Some ''foot'') (Some True) [] []\<rparr>"

subsection \<open>A list of 101 windows\<close>

text \<open>Focus events for 101 different windows, none of them closed.\<close>

definition calls101 :: "call list" where
  "calls101 = map (\<lambda>i. BringFront (word_of_nat i) ''app'') [0..<101]"

subsection \<open>The words of the specification on selection and ranking\<close>

text \<open>The conjunction that \<open>pick\<close> computes: the node type is \<open>con\<close> or \<open>floating_con\<close>,
  the title pattern matches when one is supplied, and the application id is the supplied
  one when one is supplied. A split container has the type \<open>con\<close> as a window has.\<close>

definition type_match :: "(string \<Rightarrow> bool) option \<Rightarrow> string option \<Rightarrow> Node \<Rightarrow> bool" where
  "type_match title app n \<longleftrightarrow>
     (Node_Type n = NodeCon \<or> Node_Type n = NodeFloatingCon) \<and>
     (case title of None \<Rightarrow> True | Some re \<Rightarrow> re (Node_Name n)) \<and>
     (case app of None \<Rightarrow> True | Some a \<Rightarrow> Node_AppID n = Some a)"

text \<open>\<open>sorts_before idx a b\<close>: the ranking puts \<open>a\<close> before \<open>b\<close>. Visible before not
  visible; with equal visibility, present in the MRU index before absent, and of two
  present windows the smaller position first.\<close>

definition sorts_before :: "(int64 \<rightharpoonup> nat) \<Rightarrow> Node \<Rightarrow> Node \<Rightarrow> bool" where
  "sorts_before idx a b \<longleftrightarrow>
     (Node_Visible a = Some True \<and> Node_Visible b \<noteq> Some True) \<or>
     ((Node_Visible a = Some True) = (Node_Visible b = Some True) \<and>
      (case (idx (Node_ID a), idx (Node_ID b)) of
         (Some i, Some j) \<Rightarrow> i < j
       | (Some i, None) \<Rightarrow> True
       | (None, _) \<Rightarrow> False))"

definition tied :: "(int64 \<rightharpoonup> nat) \<Rightarrow> Node \<Rightarrow> Node \<Rightarrow> bool" where
  "tied idx a b \<longleftrightarrow> \<not> sorts_before idx a b \<and> \<not> sorts_before idx b a"

subsection \<open>The example of the specification for the ranking\<close>

text \<open>Three windows of one application under a root node: the first not visible and
  third in the MRU list, the second visible and not in the MRU list, the third visible and
  first in the MRU list.\<close>

definition w_hidden :: Node where
  "w_hidden = Node 1 11 ''one'' NodeCon (Some ''app'') (Some False) [] []"

definition w_unlisted :: Node where
  "w_unlisted = Node 2 12 ''two'' NodeCon (Some ''app'') (Some True) [] []"

definition w_recent :: Node where
  "w_recent = Node 3 13 ''three'' NodeCon (Some ''app'') (Some True) [] []"

definition example_tree :: Node where
  "example_tree = Node 0 1 ''root'' NodeRoot None None [] [w_hidden, w_unlisted, w_recent]"

definition example_mru :: "listWindow list" where
  "example_mru = [\<lparr>ID = 13, AppID = ''app''\<rparr>, \<lparr>ID = 14, AppID = ''other''\<rparr>, \<lparr>ID = 11, AppID = ''app''\<rparr>]"

subsection \<open>Examples for the appnext command and for the selection\<close>

text \<open>Three windows \<open>A\<close>, \<open>B\<close>, \<open>C\<close> of the application \<open>foot\<close> in a workspace.\<close>

definition win_A :: Node where
  "win_A = Node 11 21 ''A'' NodeCon (Some ''foot'') (Some True) [] []"

definition win_B :: Node where
  "win_B = Node 12 22 ''B'' NodeCon (Some ''foot'') (Some False) [] []"

definition win_C :: Node where
  "win_C = Node 13 23 ''C'' NodeFloatingCon (Some ''foot'') (Some True) [] []"

definition tree_ABC :: Node where
  "tree_ABC = Node 10 20 ''ws'' NodeWorkspace None None [] [win_A, win_B, win_C]"

subsection \<open>A title pattern that matches a split container\<close>







subsection \<open>Events that close the window 7 or give it an application id\<close>

definition close7 :: WindowEvent where
  "close7 = \<lparr>ev_Change = WindowClose, ev_Container = Node 0 7 ''xterm'' NodeCon None (Some True) [] []\<rparr>"

definition refocus7 :: WindowEvent where
  "refocus7 = \<lparr>ev_Change = WindowFocus, ev_Container = Node 0 7 ''xterm'' NodeCon (Some ''foot'') (Some True) [] []\<rparr>"

section \<open>The invariant of the list\<close>

subsection \<open>Paths and back links under updates of the store\<close>

lemma path_upd_other: "a \<notin> set as \<Longrightarrow> path (f(a := v)) p as q = path f p as q"
  by (induction as arbitrary: p) auto

lemma path_append: "path f p (xs @ ys) q \<longleftrightarrow> (\<exists>r. path f p xs r \<and> path f r ys q)"
  by (induction xs arbitrary: p) auto

lemma backlinks_upd_other: "a \<notin> set as \<Longrightarrow> backlinks (g(a := v)) p as = backlinks g p as"
  by (induction as arbitrary: p) auto

lemma backlinks_append:
  "backlinks g p (xs @ ys) \<longleftrightarrow> backlinks g p xs \<and> backlinks g (if xs = [] then p else Some (last xs)) ys"
  by (induction xs arbitrary: p) auto

lemma nexts_simps [simp]:
  "nexts (set_prev a v h) = nexts h"
  "nexts (set_appID a s h) = nexts h"
  "nexts (set_next a v h) = (nexts h)(a := v)"
  by (auto simp: nexts_def set_prev_def set_next_def set_appID_def fun_eq_iff)

lemma prevs_simps [simp]:
  "prevs (set_next a v h) = prevs h"
  "prevs (set_appID a s h) = prevs h"
  "prevs (set_prev a v h) = (prevs h)(a := v)"
  by (auto simp: prevs_def set_prev_def set_next_def set_appID_def fun_eq_iff)

lemma ids_simps [simp]:
  "ids (set_next a v h) = ids h"
  "ids (set_prev a v h) = ids h"
  "ids (set_appID a s h) = ids h"
  by (auto simp: ids_def set_prev_def set_next_def set_appID_def fun_eq_iff)

lemma view_simps [simp]:
  "view (set_next a v h) = view h"
  "view (set_prev a v h) = view h"
  "view (set_appID a s h) = (view h)(a := \<lparr>ID = e_id (h a), AppID = s\<rparr>)"
  by (auto simp: view_def set_prev_def set_next_def set_appID_def fun_eq_iff)

lemma path_mid:
  assumes "path f p (xs @ e # ys) None" "distinct (xs @ e # ys)"
  shows "f e = (case ys of [] \<Rightarrow> None | y # _ \<Rightarrow> Some y)"
    and "path f (f e) ys None"
    and "path f p xs (Some e)"
  using assms by (auto simp: path_append split: list.splits)

lemma backlinks_mid:
  assumes "backlinks g None (xs @ e # ys)"
  shows "g e = (if xs = [] then None else Some (last xs))"
    and "backlinks g None xs" and "backlinks g (Some e) ys"
  using assms by (auto simp: backlinks_append)


lemma nexts_app: "e_next (h a) = nexts h a" by (simp add: nexts_def)
lemma prevs_app: "e_prev (h a) = prevs h a" by (simp add: prevs_def)

lemma unlink_next:
  assumes P: "path f p0 (xs @ e # ys) None" and D: "distinct (xs @ e # ys)"
    and B: "backlinks g None (xs @ e # ys)"
  defines "f1 \<equiv> (case g e of Some p \<Rightarrow> f(p := f e) | None \<Rightarrow> f)"
  shows "path f1 (if xs = [] then f e else p0) (xs @ ys) None" and "f1 e = f e"
proof -
  have ge: "g e = (if xs = [] then None else Some (last xs))"
    using backlinks_mid(1)[OF B] .
  have pe: "path f (f e) ys None" and px: "path f p0 xs (Some e)"
    using path_mid[OF P D] by auto
  show "f1 e = f e"
    using D ge by (auto simp: f1_def)
  show "path f1 (if xs = [] then f e else p0) (xs @ ys) None"
  proof (cases "xs = []")
    case True
    then show ?thesis using pe ge by (simp add: f1_def)
  next
    case False
    then obtain zs z where xs: "xs = zs @ [z]"
      by (metis rev_exhaust)
    have z: "z \<notin> set zs" "z \<notin> set ys" "z \<noteq> e" using D xs by auto
    from px xs have pz: "path f p0 zs (Some z)" and fz: "f z = Some e"
      by (auto simp: path_append)
    have f1: "f1 = f(z := f e)" using ge xs by (simp add: f1_def)
    show ?thesis
      using False xs z pz pe
      by (auto simp: f1 path_append path_upd_other)
  qed
qed

lemma unlink_prev:
  assumes P: "path f p0 (xs @ e # ys) None" and D: "distinct (xs @ e # ys)"
    and B: "backlinks g None (xs @ e # ys)"
  defines "g2 \<equiv> (case f e of Some n \<Rightarrow> g(n := g e) | None \<Rightarrow> g)"
  shows "backlinks g2 None (xs @ ys)"
proof -
  have ge: "g e = (if xs = [] then None else Some (last xs))"
    and bx: "backlinks g None xs" and bys: "backlinks g (Some e) ys"
    using backlinks_mid[OF B] by auto
  have fe: "f e = (case ys of [] \<Rightarrow> None | y # _ \<Rightarrow> Some y)"
    using path_mid(1)[OF P D] .
  show ?thesis
  proof (cases ys)
    case Nil
    then show ?thesis using bx fe by (simp add: g2_def)
  next
    case (Cons y ys')
    have y: "y \<notin> set xs" "y \<notin> set ys'" using D Cons by auto
    have g2: "g2 = g(y := g e)" using fe Cons by (simp add: g2_def)
    show ?thesis
      using Cons y bx bys ge
      by (auto simp: g2 backlinks_append backlinks_upd_other)
  qed
qed

lemma relink:
  assumes P: "path f p as None" and B: "backlinks g None as" and E: "e \<notin> set as" and D: "distinct as"
  defines "f' \<equiv> f(e := p)"
  defines "g' \<equiv> (case p of Some n \<Rightarrow> (g(e := None))(n := Some e) | None \<Rightarrow> g(e := None))"
  shows "path f' (Some e) (e # as) None" and "backlinks g' None (e # as)"
proof -
  show "path f' (Some e) (e # as) None"
    using P E by (simp add: f'_def path_upd_other)
  show "backlinks g' None (e # as)"
  proof (cases as)
    case Nil
    then show ?thesis using P by (simp add: g'_def)
  next
    case (Cons a as')
    then have p: "p = Some a" using P by simp
    have "a \<noteq> e" "a \<notin> set as'" "e \<notin> set as'" using E D Cons by auto
    then show ?thesis
      using B Cons by (simp add: g'_def p backlinks_upd_other)
  qed
qed

lemma unlink_heap:
  assumes P: "path (nexts h) p0 (xs @ e # ys) None" and D: "distinct (xs @ e # ys)"
    and B: "backlinks (prevs h) None (xs @ e # ys)"
  defines "h1 \<equiv> (case e_prev (h e) of Some p \<Rightarrow> set_next p (e_next (h e)) h | None \<Rightarrow> h)"
  defines "h2 \<equiv> (case e_next (h1 e) of Some n \<Rightarrow> set_prev n (e_prev (h1 e)) h1 | None \<Rightarrow> h1)"
  shows "path (nexts h2) (if xs = [] then nexts h e else p0) (xs @ ys) None"
    and "backlinks (prevs h2) None (xs @ ys)"
    and "view h2 = view h" and "ids h2 = ids h" and "nexts h2 e = nexts h e"
proof -
  have n1: "nexts h1 = (case prevs h e of Some p \<Rightarrow> (nexts h)(p := nexts h e) | None \<Rightarrow> nexts h)"
    by (simp add: h1_def nexts_app prevs_app split: option.splits)
  have p1: "prevs h1 = prevs h"
    by (simp add: h1_def split: option.splits)
  have n1e: "nexts h1 e = nexts h e"
    unfolding n1 using unlink_next(2)[OF P D B] .
  have p2: "prevs h2 = (case nexts h e of Some n \<Rightarrow> (prevs h)(n := prevs h e) | None \<Rightarrow> prevs h)"
    using n1e p1 by (simp add: h2_def nexts_app prevs_app split: option.splits)
  have n2: "nexts h2 = nexts h1"
    by (simp add: h2_def split: option.splits)
  show "path (nexts h2) (if xs = [] then nexts h e else p0) (xs @ ys) None"
    unfolding n2 n1 using unlink_next(1)[OF P D B] .
  show "backlinks (prevs h2) None (xs @ ys)"
    unfolding p2 using unlink_prev[OF P D B] .
  show "view h2 = view h"
    by (simp add: h2_def h1_def split: option.splits)
  show "ids h2 = ids h"
    by (simp add: h2_def h1_def split: option.splits)
  show "nexts h2 e = nexts h e"
    using n2 n1e by simp
qed

lemma relink_heap:
  assumes P: "path (nexts h) p as None" and B: "backlinks (prevs h) None as"
    and E: "e \<notin> set as" and D: "distinct as"
  defines "h3 \<equiv> set_prev e None h"
  defines "h4 \<equiv> set_next e p h3"
  defines "h5 \<equiv> (case e_next (h4 e) of Some n \<Rightarrow> set_prev n (Some e) h4 | None \<Rightarrow> h4)"
  shows "path (nexts h5) (Some e) (e # as) None"
    and "backlinks (prevs h5) None (e # as)"
    and "view h5 = view h" and "ids h5 = ids h"
proof -
  have n4e: "e_next (h4 e) = p"
    by (simp add: h4_def nexts_app)
  have n5: "nexts h5 = (nexts h)(e := p)"
    by (simp add: h5_def h4_def h3_def split: option.splits)
  have p5: "prevs h5 = (case p of Some n \<Rightarrow> ((prevs h)(e := None))(n := Some e) | None \<Rightarrow> (prevs h)(e := None))"
    by (simp add: h5_def n4e) (simp add: h4_def h3_def split: option.splits)
  show "path (nexts h5) (Some e) (e # as) None"
    unfolding n5 using relink(1)[OF P B E D] .
  show "backlinks (prevs h5) None (e # as)"
    unfolding p5 using relink(2)[OF P B E D] .
  show "view h5 = view h"
    by (simp add: h5_def h4_def h3_def split: option.splits)
  show "ids h5 = ids h"
    by (simp add: h5_def h4_def h3_def split: option.splits)
qed

lemma linked_head: "linked l as \<Longrightarrow> l_head l = (case as of [] \<Rightarrow> None | a # _ \<Rightarrow> Some a)"
  by (cases as) (auto simp: linked_def)

lemma linked_m: "linked l as \<Longrightarrow> (l_m l k = Some a) = (a \<in> set as \<and> ids (elts l) a = k)"
  by (simp add: linked_def)

lemma linked_filter_absent:
  assumes "linked l as" "l_m l k = None"
  shows "filter (\<lambda>a. ids (elts l) a \<noteq> k) as = as"
proof -
  have "\<And>a. a \<in> set as \<Longrightarrow> ids (elts l) a \<noteq> k"
    using linked_m[OF assms(1)] assms(2) by (metis option.distinct(1))
  then show ?thesis by (simp add: filter_id_conv)
qed

lemma linked_filter_present:
  assumes L: "linked l as" and M: "l_m l k = Some e"
  shows "\<exists>xs ys. as = xs @ e # ys \<and> filter (\<lambda>a. ids (elts l) a \<noteq> k) as = xs @ ys \<and> ids (elts l) e = k"
proof -
  from L M have e: "e \<in> set as" "ids (elts l) e = k"
    by (simp_all add: linked_m)
  then obtain xs ys where as: "as = xs @ e # ys"
    by (auto simp: in_set_conv_decomp)
  have uniq: "\<And>a. a \<in> set as \<Longrightarrow> ids (elts l) a = k \<Longrightarrow> a = e"
    using linked_m[OF L] M by (metis option.inject)
  have D: "distinct as" using L by (simp add: linked_def)
  have "filter (\<lambda>a. ids (elts l) a \<noteq> k) xs = xs" "filter (\<lambda>a. ids (elts l) a \<noteq> k) ys = ys"
    using uniq D unfolding as by (auto simp: filter_id_conv)
  then show ?thesis using as e by auto
qed

lemma nexts_upd: "nexts (h(a := r)) = (nexts h)(a := e_next r)"
  by (auto simp: nexts_def fun_eq_iff)
lemma prevs_upd: "prevs (h(a := r)) = (prevs h)(a := e_prev r)"
  by (auto simp: prevs_def fun_eq_iff)
lemma ids_upd: "ids (h(a := r)) = (ids h)(a := e_id r)"
  by (auto simp: ids_def fun_eq_iff)
lemma view_upd: "view (h(a := r)) = (view h)(a := \<lparr>ID = e_id r, AppID = e_appID r\<rparr>)"
  by (auto simp: view_def fun_eq_iff)

lemma linkedI:
  assumes "path (nexts (elts l)) (l_head l) as None" "backlinks (prevs (elts l)) None as"
    "distinct as" "\<And>a. a \<in> set as \<Longrightarrow> a < nalloc l"
    "\<And>k a. (l_m l k = Some a) = (a \<in> set as \<and> ids (elts l) a = k)"
  shows "linked l as"
  using assms by (simp add: linked_def)

lemma linkedD:
  assumes "linked l as"
  shows "path (nexts (elts l)) (l_head l) as None" "backlinks (prevs (elts l)) None as"
    "distinct as" "\<And>a. a \<in> set as \<Longrightarrow> a < nalloc l"
  using assms by (simp_all add: linked_def)

lemma delete_linked:
  assumes L: "linked l as"
  shows "linked (delete k l) (filter (\<lambda>a. ids (elts l) a \<noteq> k) as)"
    and "view (elts (delete k l)) = view (elts l)"
    and "ids (elts (delete k l)) = ids (elts l)"
    and "nalloc (delete k l) = nalloc l"
proof -
  let ?h = "elts l"
  show "nalloc (delete k l) = nalloc l"
    by (simp add: delete_def Let_def split: option.splits)
  show "linked (delete k l) (filter (\<lambda>a. ids (elts l) a \<noteq> k) as) "
  proof (cases "l_m l k")
    case None
    then show ?thesis
      using L by (simp add: linked_filter_absent delete_def)
  next
    case (Some e)
    from linked_filter_present[OF L Some] obtain xs ys where
      as: "as = xs @ e # ys" and fl: "filter (\<lambda>a. ids ?h a \<noteq> k) as = xs @ ys"
      and ide: "ids ?h e = k" by blast
    define h1 where "h1 = (case e_prev (?h e) of Some p \<Rightarrow> set_next p (e_next (?h e)) ?h | None \<Rightarrow> ?h)"
    define h2 where "h2 = (case e_next (h1 e) of Some n \<Rightarrow> set_prev n (e_prev (h1 e)) h1 | None \<Rightarrow> h1)"
    define l' where "l' = l\<lparr>l_m := (l_m l)(k := None), elts := h2,
                l_head := (if l_head l = Some e then e_next (h2 e) else l_head l)\<rparr>"
    have del: "delete k l = l'"
      unfolding l'_def h2_def h1_def delete_def Let_def Some by simp
    have P: "path (nexts ?h) (l_head l) (xs @ e # ys) None"
      and B: "backlinks (prevs ?h) None (xs @ e # ys)"
      and D: "distinct (xs @ e # ys)"
      using linkedD[OF L] unfolding as by auto
    note U = unlink_heap[OF P D B, folded h1_def, folded h2_def]
    have hd: "l_head l = Some e \<longleftrightarrow> xs = []"
      using linked_head[OF L] D unfolding as by (cases xs) auto
    have "linked l' (xs @ ys)"
    proof (rule linkedI)
      show "path (nexts (elts l')) (l_head l') (xs @ ys) None"
        using U(1) U(5) hd by (auto simp: l'_def nexts_app split: if_splits)
      show "backlinks (prevs (elts l')) None (xs @ ys)"
        using U(2) by (simp add: l'_def)
      show "distinct (xs @ ys)" using D by auto
      show "\<And>a. a \<in> set (xs @ ys) \<Longrightarrow> a < nalloc l'"
        using linkedD(4)[OF L] unfolding as by (auto simp: l'_def)
      show "\<And>k' a. (l_m l' k' = Some a) = (a \<in> set (xs @ ys) \<and> ids (elts l') a = k')"
      proof -
        fix k' a
        have uniq: "a \<in> set as \<Longrightarrow> ids ?h a = k \<Longrightarrow> a = e"
          using linked_m[OF L] Some by (metis option.inject)
        show "(l_m l' k' = Some a) = (a \<in> set (xs @ ys) \<and> ids (elts l') a = k')"
          using linked_m[OF L, of k' a] uniq D ide
          by (auto simp: l'_def U(4) as)
      qed
    qed
    then show ?thesis by (simp add: del fl)
  qed
  show "view (elts (delete k l)) = view (elts l)"
    by (simp add: delete_def Let_def split: option.splits)
  show "ids (elts (delete k l)) = ids (elts l)"
    by (simp add: delete_def Let_def split: option.splits)
qed

lemma relink_linked:
  assumes P: "path (nexts h) (l_head l) bs None" and B: "backlinks (prevs h) None bs"
    and E: "e \<notin> set bs" and D: "distinct bs"
    and N: "\<And>a. a \<in> set (e # bs) \<Longrightarrow> a < nalloc l"
    and M: "\<And>k a. (l_m l k = Some a) = (a \<in> set (e # bs) \<and> ids h a = k)"
  defines "h3 \<equiv> set_prev e None h"
  defines "h4 \<equiv> set_next e (l_head l) h3"
  defines "h5 \<equiv> (case e_next (h4 e) of Some n \<Rightarrow> set_prev n (Some e) h4 | None \<Rightarrow> h4)"
  shows "linked (l\<lparr>elts := h5, l_head := Some e\<rparr>) (e # bs)" and "view h5 = view h"
proof -
  note R = relink_heap[OF P B E D, folded h3_def, folded h4_def, folded h5_def]
  show "view h5 = view h" by (rule R(3))
  show "linked (l\<lparr>elts := h5, l_head := Some e\<rparr>) (e # bs)"
  proof (rule linkedI)
    show "path (nexts (elts (l\<lparr>elts := h5, l_head := Some e\<rparr>))) (l_head (l\<lparr>elts := h5, l_head := Some e\<rparr>)) (e # bs) None"
      using R(1) by simp
    show "backlinks (prevs (elts (l\<lparr>elts := h5, l_head := Some e\<rparr>))) None (e # bs)"
      using R(2) by simp
    show "distinct (e # bs)" using E D by simp
    show "\<And>a. a \<in> set (e # bs) \<Longrightarrow> a < nalloc (l\<lparr>elts := h5, l_head := Some e\<rparr>)"
      using N by simp
    show "\<And>k a. (l_m (l\<lparr>elts := h5, l_head := Some e\<rparr>) k = Some a) =
        (a \<in> set (e # bs) \<and> ids (elts (l\<lparr>elts := h5, l_head := Some e\<rparr>)) a = k)"
      using M by (simp add: R(4))
  qed
qed

lemma bringFront_unfold:
  fixes k :: int64 and l :: windowMRUList and s :: string
  assumes lk: "lookup_or_new k l = (e, l1)"
  defines "h \<equiv> set_appID e s (elts l1)"
  defines "h1 \<equiv> (case e_prev (h e) of Some p \<Rightarrow> set_next p (e_next (h e)) h | None \<Rightarrow> h)"
  defines "h2 \<equiv> (case e_next (h1 e) of Some n \<Rightarrow> set_prev n (e_prev (h1 e)) h1 | None \<Rightarrow> h1)"
  defines "h3 \<equiv> set_prev e None h2"
  defines "h4 \<equiv> set_next e (l_head l1) h3"
  defines "h5 \<equiv> (case e_next (h4 e) of Some n \<Rightarrow> set_prev n (Some e) h4 | None \<Rightarrow> h4)"
  shows "bringFront k s l = (if l_head l1 = Some e then l1\<lparr>elts := h\<rparr> else l1\<lparr>elts := h5, l_head := Some e\<rparr>)"
  unfolding h5_def h4_def h3_def h2_def h1_def h_def bringFront_def lk Let_def prod.case
  by (rule refl)

lemma bringFront_linked:
  fixes k :: int64 and l :: windowMRUList
  assumes L: "linked l as"
  defines "e \<equiv> fst (lookup_or_new k l)"
  shows "linked (bringFront k s l) (e # filter (\<lambda>a. ids (elts l) a \<noteq> k) as)"
    and "view (elts (bringFront k s l)) = (view (elts l))(e := \<lparr>ID = k, AppID = s\<rparr>)"
proof -
  let ?h = "elts l"
  have "linked (bringFront k s l) (e # filter (\<lambda>a. ids (elts l) a \<noteq> k) as) \<and>
        view (elts (bringFront k s l)) = (view (elts l))(e := \<lparr>ID = k, AppID = s\<rparr>)"
  proof (cases "l_m l k")
    case None
    have e: "e = nalloc l" by (simp add: e_def lookup_or_new_def None Let_def)
    have fl: "filter (\<lambda>a. ids ?h a \<noteq> k) as = as"
      using linked_filter_absent[OF L None] .
    have enot: "e \<notin> set as" using linkedD(4)[OF L] e by auto
    define l1 where "l1 = l\<lparr>elts := (elts l)(e := zeroElt\<lparr>e_id := k\<rparr>), nalloc := Suc e, l_m := (l_m l)(k \<mapsto> e)\<rparr>"
    define h where "h = set_appID e s (elts l1)"
    have lk: "lookup_or_new k l = (e, l1)"
      by (simp add: lookup_or_new_def None Let_def e l1_def)
    have hdne: "l_head l1 \<noteq> Some e"
      using linked_head[OF L] enot by (auto simp: l1_def split: list.splits)
    have pe: "e_prev (h e) = None" "e_next (h e) = None"
      by (simp_all add: h_def l1_def set_appID_def zeroElt_def)
    define h1 where "h1 = (case e_prev (h e) of Some p \<Rightarrow> set_next p (e_next (h e)) h | None \<Rightarrow> h)"
    define h2 where "h2 = (case e_next (h1 e) of Some n \<Rightarrow> set_prev n (e_prev (h1 e)) h1 | None \<Rightarrow> h1)"
    define h3 where "h3 = set_prev e None h2"
    define h4 where "h4 = set_next e (l_head l1) h3"
    define h5 where "h5 = (case e_next (h4 e) of Some n \<Rightarrow> set_prev n (Some e) h4 | None \<Rightarrow> h4)"
    have bf: "bringFront k s l = l1\<lparr>elts := h5, l_head := Some e\<rparr>"
      using bringFront_unfold[OF lk, of s, folded h_def, folded h1_def, folded h2_def,
          folded h3_def, folded h4_def, folded h5_def] hdne by simp
    have h1: "h1 = h" by (simp add: h1_def pe)
    have h2: "h2 = h" by (simp add: h2_def h1 pe)
    have nh: "nexts h = (nexts ?h)(e := None)" "prevs h = (prevs ?h)(e := None)"
      "ids h = (ids ?h)(e := k)"
      by (simp_all add: h_def l1_def nexts_upd prevs_upd ids_upd zeroElt_def)
    have vh: "view h = (view ?h)(e := \<lparr>ID = k, AppID = s\<rparr>)"
      by (simp add: h_def l1_def view_upd)
    have P: "path (nexts h) (l_head l1) as None"
      using linkedD(1)[OF L] enot by (simp add: nh path_upd_other l1_def)
    have B: "backlinks (prevs h) None as"
      using linkedD(2)[OF L] enot by (simp add: nh backlinks_upd_other)
    have N: "\<And>a. a \<in> set (e # as) \<Longrightarrow> a < nalloc l1"
      using linkedD(4)[OF L] e by (auto simp: l1_def less_Suc_eq)
    have M: "\<And>k' a. (l_m l1 k' = Some a) = (a \<in> set (e # as) \<and> ids h a = k')"
    proof -
      fix k' a
      have no: "\<And>a. a \<in> set as \<Longrightarrow> ids ?h a \<noteq> k"
        using linked_m[OF L] None by (metis option.distinct(1))
      show "(l_m l1 k' = Some a) = (a \<in> set (e # as) \<and> ids h a = k')"
        using linked_m[OF L, of k' a] enot no by (auto simp: l1_def nh)
    qed
    from relink_linked[OF P[folded h2] B[folded h2] enot linkedD(3)[OF L] N M[folded h2],
        folded h3_def, folded h4_def, folded h5_def]
    show ?thesis by (simp add: bf fl vh h2)
  next
    case (Some e')
    have e: "e = e'" by (simp add: e_def lookup_or_new_def Some)
    have lk: "lookup_or_new k l = (e, l)"
      by (simp add: lookup_or_new_def Some e)
    from linked_filter_present[OF L Some] obtain xs ys where
      as: "as = xs @ e # ys" and fl: "filter (\<lambda>a. ids ?h a \<noteq> k) as = xs @ ys"
      and ide: "ids ?h e = k" unfolding e by blast
    define h where "h = set_appID e s ?h"
    have nh: "nexts h = nexts ?h" "prevs h = prevs ?h" "ids h = ids ?h"
      by (simp_all add: h_def)
    have vh: "view h = (view ?h)(e := \<lparr>ID = k, AppID = s\<rparr>)"
      using ide by (simp add: h_def ids_def)
    have P: "path (nexts h) (l_head l) (xs @ e # ys) None"
      and B: "backlinks (prevs h) None (xs @ e # ys)"
      and D: "distinct (xs @ e # ys)"
      using linkedD[OF L] unfolding as nh by auto
    have hd: "l_head l = Some e \<longleftrightarrow> xs = []"
      using linked_head[OF L] D unfolding as by (cases xs) auto
    show ?thesis
    proof (cases "xs = []")
      case True
      have bf: "bringFront k s l = l\<lparr>elts := h\<rparr>"
        using bringFront_unfold[OF lk, of s, folded h_def] hd True by simp
      have "linked (l\<lparr>elts := h\<rparr>) as"
        using L by (simp add: linked_def nh)
      then show ?thesis unfolding bf fl using True by (simp add: vh as)
    next
      case False
      define h1 where "h1 = (case e_prev (h e) of Some p \<Rightarrow> set_next p (e_next (h e)) h | None \<Rightarrow> h)"
      define h2 where "h2 = (case e_next (h1 e) of Some n \<Rightarrow> set_prev n (e_prev (h1 e)) h1 | None \<Rightarrow> h1)"
      define h3 where "h3 = set_prev e None h2"
      define h4 where "h4 = set_next e (l_head l) h3"
      define h5 where "h5 = (case e_next (h4 e) of Some n \<Rightarrow> set_prev n (Some e) h4 | None \<Rightarrow> h4)"
      have bf: "bringFront k s l = l\<lparr>elts := h5, l_head := Some e\<rparr>"
        using bringFront_unfold[OF lk, of s, folded h_def, folded h1_def, folded h2_def,
            folded h3_def, folded h4_def, folded h5_def] hd False by simp
      note U = unlink_heap[OF P D B, folded h1_def, folded h2_def]
      have P2: "path (nexts h2) (l_head l) (xs @ ys) None" using U(1) False by simp
      have E: "e \<notin> set (xs @ ys)" and D2: "distinct (xs @ ys)" using D by auto
      have N: "\<And>a. a \<in> set (e # xs @ ys) \<Longrightarrow> a < nalloc l"
        using linkedD(4)[OF L] unfolding as by auto
      have M: "\<And>k' a. (l_m l k' = Some a) = (a \<in> set (e # xs @ ys) \<and> ids h2 a = k')"
        using linked_m[OF L] unfolding as U(4) nh by auto
      from relink_linked[OF P2 U(2) E D2 N M, folded h3_def, folded h4_def, folded h5_def]
      show ?thesis by (simp add: bf fl U(3) vh)
    qed
  qed
  then show "linked (bringFront k s l) (e # filter (\<lambda>a. ids (elts l) a \<noteq> k) as)"
    and "view (elts (bringFront k s l)) = (view (elts l))(e := \<lparr>ID = k, AppID = s\<rparr>)"
    by simp_all
qed

subsection \<open>Reading the list: \<open>entries\<close> and \<open>all\<close>\<close>

lemma walk_path:
  "path (nexts h) p as None \<Longrightarrow> length as \<le> n \<Longrightarrow> walk n h p = map (view h) as"
proof (induction n arbitrary: p as)
  case 0
  then show ?case by simp
next
  case (Suc n)
  show ?case
  proof (cases as)
    case Nil
    with Suc.prems show ?thesis by simp
  next
    case (Cons a bs)
    with Suc.prems have "p = Some a" "path (nexts h) (e_next (h a)) bs None" "length bs \<le> n"
      by (simp_all add: nexts_app)
    with Suc.IH[of "e_next (h a)" bs] Cons show ?thesis
      by (simp add: view_def)
  qed
qed

lemma linked_length: 
  assumes "linked l as" shows "length as \<le> nalloc l"
proof -
  have "set as \<subseteq> {..<nalloc l}" using linkedD(4)[OF assms] by auto
  then have "card (set as) \<le> card {..<nalloc l}" by (intro card_mono) auto
  then show ?thesis using linkedD(3)[OF assms] by (simp add: distinct_card)
qed

lemma entries_linked: "linked l as \<Longrightarrow> entries l = map (view (elts l)) as"
  unfolding entries_def using walk_path linkedD(1) linked_length by blast

lemma all_loop_path:
  "path (nexts h) p as None \<Longrightarrow> i \<le> 100 \<Longrightarrow>
   all_loop h p i acc =
     (if i + length as \<le> 100 then Inr (acc @ map (view h) as) else Inl (Panic ''boom''))"
proof (induction as arbitrary: p i acc)
  case Nil
  then show ?case by simp
next
  case (Cons a as)
  then have p: "p = Some a" and rest: "path (nexts h) (e_next (h a)) as None"
    by (simp_all add: nexts_app)
  show ?case
  proof (cases "i + 1 > 100")
    case True
    then show ?thesis unfolding p by simp
  next
    case False
    then show ?thesis
      unfolding p using Cons.IH[OF rest, of "i + 1"] by (simp add: view_def)
  qed
qed

lemma all_linked:
  "linked l as \<Longrightarrow>
   all l = (if length as \<le> 100 then Inr (map (view (elts l)) as) else Inl (Panic ''boom''))"
  unfolding all_def using all_loop_path[OF linkedD(1), of l as 0 "[]"] by simp

lemma linked_newList: "linked newList []"
  by (simp add: linked_def newList_def)

lemma linked_do_call: "linked l as \<Longrightarrow> \<exists>bs. linked (do_call l c) bs"
  by (cases c) (auto intro: bringFront_linked(1) delete_linked(1))

lemma linked_run: "\<exists>as. linked (run cs) as"
proof (induction cs rule: rev_induct)
  case Nil
  then show ?case using linked_newList by (auto simp: run_def)
next
  case (snoc c cs)
  then show ?case using linked_do_call by (auto simp: run_def)
qed

lemma map_view_filter:
  "map (view h) (filter (\<lambda>a. ids h a \<noteq> k) as) = filter (\<lambda>w. ID w \<noteq> k) (map (view h) as)"
  by (induction as) (auto simp: view_def ids_def)

lemma entries_delete:
  assumes "linked l as"
  shows "entries (delete k l) = filter (\<lambda>w. ID w \<noteq> k) (entries l)"
  using entries_linked[OF delete_linked(1)[OF assms, of k]] delete_linked(2)[OF assms, of k]
    entries_linked[OF assms]
  by (simp add: map_view_filter)

lemma entries_bringFront:
  assumes L: "linked l as"
  shows "entries (bringFront k s l) = \<lparr>ID = k, AppID = s\<rparr> # filter (\<lambda>w. ID w \<noteq> k) (entries l)"
proof -
  define e where "e = fst (lookup_or_new k l)"
  let ?bs = "filter (\<lambda>a. ids (elts l) a \<noteq> k) as"
  have L': "linked (bringFront k s l) (e # ?bs)"
    and V: "view (elts (bringFront k s l)) = (view (elts l))(e := \<lparr>ID = k, AppID = s\<rparr>)"
    using bringFront_linked[OF L, of k s] unfolding e_def by auto
  have "e \<notin> set ?bs" using linkedD(3)[OF L'] by simp
  then have "map ((view (elts l))(e := \<lparr>ID = k, AppID = s\<rparr>)) ?bs = map (view (elts l)) ?bs"
    by (intro map_cong) auto
  then show ?thesis
    using entries_linked[OF L'] entries_linked[OF L] by (simp add: V map_view_filter)
qed

subsection \<open>Sequences of calls\<close>

lemma run_snoc: "run (cs @ [c]) = do_call (run cs) c"
  by (simp add: run_def)

lemma entries_run_snoc:
  "entries (run (cs @ [BringFront k s])) = \<lparr>ID = k, AppID = s\<rparr> # filter (\<lambda>w. ID w \<noteq> k) (entries (run cs))"
  "entries (run (cs @ [Remove k])) = filter (\<lambda>w. ID w \<noteq> k) (entries (run cs))"
  using linked_run[of cs] by (auto simp: run_snoc entries_bringFront entries_delete)

lemma inserted_not_removed_snoc:
  "inserted_not_removed (cs @ [BringFront k s]) = insert k (inserted_not_removed cs)"
  "inserted_not_removed (cs @ [Remove k]) = inserted_not_removed cs - {k}"
  by (induction cs rule: inserted_not_removed.induct) auto

lemma ids_entries_run:
  "ID ` set (entries (run cs)) = inserted_not_removed cs \<and> distinct (map ID (entries (run cs)))"
proof (induction cs rule: rev_induct)
  case Nil
  show ?case by (simp add: run_def entries_def newList_def)
next
  case (snoc c cs)
  show ?case
  proof (cases c)
    case (BringFront k s)
    with snoc show ?thesis
      by (auto simp: entries_run_snoc inserted_not_removed_snoc distinct_map_filter)
  next
    case (Remove k)
    with snoc show ?thesis
      by (auto simp: entries_run_snoc inserted_not_removed_snoc distinct_map_filter)
  qed
qed

lemma all_run:
  "all (run cs) = (if length (entries (run cs)) \<le> 100 then Inr (entries (run cs)) else Inl (Panic ''boom''))"
proof -
  obtain as where L: "linked (run cs) as" using linked_run by blast
  show ?thesis using all_linked[OF L] entries_linked[OF L] by simp
qed

lemma length_entries_run: "length (entries (run cs)) = card (inserted_not_removed cs)"
proof -
  have "card (inserted_not_removed cs) = card (ID ` set (entries (run cs)))"
    using ids_entries_run[of cs] by simp
  also have "\<dots> = card (set (map ID (entries (run cs))))" by simp
  also have "\<dots> = length (map ID (entries (run cs)))"
    using ids_entries_run[of cs] distinct_card by blast
  finally show ?thesis by simp
qed

lemma entries_run_forget:
  "entries (run (filter (\<lambda>c. call_id c \<noteq> k) cs)) = filter (\<lambda>w. ID w \<noteq> k) (entries (run cs))"
proof (induction cs rule: rev_induct)
  case Nil
  show ?case by (simp add: run_def entries_def newList_def)
next
  case (snoc c cs)
  show ?case
  proof (cases c)
    case (BringFront k' s)
    with snoc show ?thesis
      by (cases "k' = k") (auto simp: entries_run_snoc conj_commute)
  next
    case (Remove k')
    with snoc show ?thesis
      by (cases "k' = k") (auto simp: entries_run_snoc conj_commute)
  qed
qed

lemma head_bringFront:
  assumes L: "linked l as"
  shows "l_head (bringFront k s l) = Some (fst (lookup_or_new k l))"
  using linked_head[OF bringFront_linked(1)[OF L, of k s]] by simp

lemma head_record_bringFront:
  assumes L: "linked l as"
  shows "view (elts (bringFront k s l)) (fst (lookup_or_new k l)) = \<lparr>ID = k, AppID = s\<rparr>"
  using bringFront_linked(2)[OF L, of k s] by simp

lemma absent_iff:
  assumes L: "linked l as"
  shows "l_m l k = None \<longleftrightarrow> k \<notin> ID ` set (entries l)"
proof -
  have "ID ` set (entries l) = ids (elts l) ` set as"
    using entries_linked[OF L] by (auto simp: view_def ids_def image_iff)
  then show ?thesis using linked_m[OF L, of k] by (metis image_iff not_Some_eq)
qed

lemma bringFront_at_head:
  assumes "l_head l = Some e" "l_m l k = Some e"
  shows "bringFront k s l = l\<lparr>elts := set_appID e s (elts l)\<rparr>"
  using assms by (simp add: bringFront_def lookup_or_new_def)

lemma head_in_map:
  assumes L: "linked l as" and E: "entries l = w # ws"
  shows "\<exists>e. l_head l = Some e \<and> l_m l (ID w) = Some e"
proof -
  from E entries_linked[OF L] obtain a bs where as: "as = a # bs" and w: "w = view (elts l) a"
    by (cases as) auto
  have "l_head l = Some a" using linked_head[OF L] as by simp
  moreover have "l_m l (ID w) = Some a" using linked_m[OF L, of "ID w" a] as w
    by (simp add: view_def ids_def)
  ultimately show ?thesis by blast
qed

lemma inserted_not_removed_BringFronts:
  "inserted_not_removed (map (\<lambda>i. BringFront (f i) s) [0..<n]) = f ` {0..<n}"
  by (induction n) (auto simp: inserted_not_removed_snoc less_Suc_eq)

lemma card_calls101: "card (inserted_not_removed calls101) = 101"
proof -
  have "inj_on (word_of_nat :: nat \<Rightarrow> int64) {0..<101}"
    by (rule inj_onI) (simp add: word_of_nat_eq_iff take_bit_nat_eq_self)
  then have "card ((word_of_nat :: nat \<Rightarrow> int64) ` {0..<101}) = 101"
    by (simp add: card_image)
  then show ?thesis
    by (simp add: calls101_def inserted_not_removed_BringFronts)
qed

lemma snapshot_of_calls:
  "all (run cs) = (if card (inserted_not_removed cs) \<le> 100 then Inr (entries (run cs))
                   else Inl (Panic ''boom''))
   \<and> ID ` set (entries (run cs)) = inserted_not_removed cs
   \<and> distinct (map ID (entries (run cs)))"
  using all_run[of cs] ids_entries_run[of cs] by (simp add: length_entries_run)

lemma entries_two: "entries (run [BringFront 1 ''a'', BringFront 2 ''b'']) = [\<lparr>ID = 2, AppID = ''b''\<rparr>, \<lparr>ID = 1, AppID = ''a''\<rparr>]"
  using entries_run_snoc(1)[of "[BringFront 1 ''a'']" 2 "''b''"] entries_run_snoc(1)[of "[]" 1 "''a''"]
  by (simp add: run_def entries_def newList_def)

lemma delete_absent: "l_m l k = None \<Longrightarrow> delete k l = l"
  by (simp add: delete_def)

lemma l_m_delete: "l_m (delete k l) k = None"
  by (simp add: delete_def Let_def split: option.splits)

lemma lookup_or_new_absent: "l_m l k = None \<Longrightarrow> fst (lookup_or_new k l) = nalloc l"
  by (simp add: lookup_or_new_def Let_def)

subsection \<open>The event handler\<close>

lemma verbose_log_Inr: "verbose_log h = Inr h' \<Longrightarrow> h' = h"
  by (auto simp: verbose_log_def split: if_splits sum.splits)

lemma Window_focus_unknown_app:
  assumes "ev_Change e = WindowFocus"
    and "Node_AppID (ev_Container e) = None \<or> Node_AppID (ev_Container e) = Some []"
  shows "Window e h = verbose_log (h\<lparr>h_list := bringFront (Node_ID (ev_Container e)) ''?'' (h_list h)\<rparr>)"
  using assms by (auto simp: Window_def Let_def)

lemma linked_bringFront_ex: "linked l as \<Longrightarrow> \<exists>bs. linked (bringFront k s l) bs"
  using bringFront_linked(1) by blast

lemma linked_delete_ex: "linked l as \<Longrightarrow> \<exists>bs. linked (delete k l) bs"
  using delete_linked(1) by blast

lemma Window_linked:
  assumes "Window e h = Inr h'" "linked (h_list h) as"
  shows "\<exists>bs. linked (h_list h') bs"
proof (cases "ev_Change e")
  case WindowFocus
  then show ?thesis
    using assms(1) linked_bringFront_ex[OF assms(2)]
    by (auto simp: Window_def Let_def dest!: verbose_log_Inr)
next
  case WindowClose
  then show ?thesis
    using assms(1) linked_delete_ex[OF assms(2)]
    by (auto simp: Window_def Let_def dest!: verbose_log_Inr)
qed (use assms in \<open>auto simp: Window_def\<close>)

lemma subscribe_linked:
  "subscribe es h = Inr h' \<Longrightarrow> linked (h_list h) as \<Longrightarrow> \<exists>bs. linked (h_list h') bs"
proof (induction es arbitrary: h as)
  case Nil
  then show ?case by auto
next
  case (Cons e es)
  from Cons.prems(1) obtain h1 where 1: "Window e h = Inr h1" and 2: "subscribe es h1 = Inr h'"
    by (auto split: sum.splits)
  from Window_linked[OF 1 Cons.prems(2)] obtain bs where "linked (h_list h1) bs" by blast
  with Cons.IH[OF 2] show ?case by blast
qed

lemma Window_keeps:
  assumes W: "Window e h = Inr h'" and L: "linked (h_list h) as"
    and R: "\<not> retires wid e"
    and M: "\<lparr>ID = wid, AppID = ''?''\<rparr> \<in> set (entries (h_list h))"
  shows "\<lparr>ID = wid, AppID = ''?''\<rparr> \<in> set (entries (h_list h'))"
proof (cases "ev_Change e")
  case WindowFocus
  let ?c = "ev_Container e"
  let ?a = "if Node_AppID ?c \<noteq> None \<and> the (Node_AppID ?c) \<noteq> [] then the (Node_AppID ?c) else ''?''"
  have h': "h_list h' = bringFront (Node_ID ?c) ?a (h_list h)"
    using W WindowFocus by (auto simp: Window_def Let_def dest!: verbose_log_Inr)
  show ?thesis
  proof (cases "Node_ID ?c = wid")
    case True
    then have "?a = ''?''" using R WindowFocus by (auto simp: retires_def)
    then show ?thesis using True by (simp add: h' entries_bringFront[OF L])
  next
    case False
    then show ?thesis using M by (simp add: h' entries_bringFront[OF L])
  qed
next
  case WindowClose
  then have h': "h_list h' = delete (Node_ID (ev_Container e)) (h_list h)"
    using W by (auto simp: Window_def Let_def dest!: verbose_log_Inr)
  have "Node_ID (ev_Container e) \<noteq> wid" using R WindowClose by (auto simp: retires_def)
  then show ?thesis using M by (simp add: h' entries_delete[OF L])
qed (use W M in \<open>auto simp: Window_def\<close>)

lemma subscribe_keeps:
  "subscribe es h = Inr h' \<Longrightarrow> linked (h_list h) as \<Longrightarrow> \<forall>e \<in> set es. \<not> retires wid e \<Longrightarrow>
   \<lparr>ID = wid, AppID = ''?''\<rparr> \<in> set (entries (h_list h)) \<Longrightarrow>
   \<lparr>ID = wid, AppID = ''?''\<rparr> \<in> set (entries (h_list h'))"
proof (induction es arbitrary: h as)
  case Nil
  then show ?case by auto
next
  case (Cons e es)
  from Cons.prems(1) obtain h1 where 1: "Window e h = Inr h1" and 2: "subscribe es h1 = Inr h'"
    by (auto split: sum.splits)
  from Window_linked[OF 1 Cons.prems(2)] obtain bs where L1: "linked (h_list h1) bs" by blast
  have M1: "\<lparr>ID = wid, AppID = ''?''\<rparr> \<in> set (entries (h_list h1))"
    using Window_keeps[OF 1 Cons.prems(2) _ Cons.prems(4)] Cons.prems(3) by simp
  show ?case
    using Cons.IH[OF 2 L1 _ M1] Cons.prems(3) by simp
qed

lemma handle_linked:
  "linked (h_list h) as \<Longrightarrow> handle h = Inr ws \<Longrightarrow> ws = entries (h_list h)"
  using all_linked[of "h_list h" as] entries_linked[of "h_list h" as]
  by (auto simp: handle_def split: if_splits)

lemma handle_one:
  "handle \<lparr>h_verbose = False, h_list = bringFront 7 ''?'' newList\<rparr> = Inr [\<lparr>ID = 7, AppID = ''?''\<rparr>]"
proof -
  have r: "bringFront 7 ''?'' newList = run [BringFront 7 ''?'']" by (simp add: run_def)
  have e: "entries (run [BringFront 7 ''?'']) = [\<lparr>ID = 7, AppID = ''?''\<rparr>]"
    using entries_run_snoc(1)[of "[]" 7 "''?''"] by (simp add: run_def entries_def newList_def)
  show ?thesis unfolding handle_def r using all_run[of "[BringFront 7 ''?'']"] by (simp add: e)
qed

section \<open>Selection and ranking\<close>

subsection \<open>\<open>treeSelect\<close> filters the nodes in walk order\<close>

lemma foldl_walk_acc:
  assumes "\<And>n acc. n \<in> set ns \<Longrightarrow> walkTree n (\<lambda>n ms. if fn n then ms @ [n] else ms) acc = acc @ filter fn (tree_nodes n)"
  shows "foldl (\<lambda>s n. walkTree n (\<lambda>n ms. if fn n then ms @ [n] else ms) s) acc ns
         = acc @ filter fn (concat (map tree_nodes ns))"
  using assms by (induction ns arbitrary: acc) auto

lemma walkTree_select:
  "walkTree n (\<lambda>n ms. if fn n then ms @ [n] else ms) acc = acc @ filter fn (tree_nodes n)"
proof (induction n arbitrary: acc)
  case (Node p i nm ty app vis fl ns)
  show ?case
    using foldl_walk_acc[of fl fn, OF Node.IH(1)] foldl_walk_acc[of ns fn, OF Node.IH(2)]
    by simp
qed

lemma treeSelect_filter: "treeSelect root fn = filter fn (tree_nodes root)"
  by (simp add: treeSelect_def walkTree_select)

subsection \<open>The stable insertion sort\<close>

lemma insertBack_key:
  fixes f :: "'a \<Rightarrow> 'k::linorder"
  assumes "\<And>y. y \<in> set ys \<Longrightarrow> lt x y = Inr (f x < f y)"
  shows "insertBack lt x ys =
           Inr (takeWhile (\<lambda>y. f x < f y) ys @ x # dropWhile (\<lambda>y. f x < f y) ys)"
  using assms by (induction ys) auto

lemma sorted_insert_desc:
  fixes f :: "'a \<Rightarrow> 'k::linorder"
  assumes "sorted (map f (rev acc))"
  shows "sorted (map f (rev (takeWhile (\<lambda>y. f x < f y) acc @ x # dropWhile (\<lambda>y. f x < f y) acc)))"
proof -
  let ?P = "\<lambda>y. f x < f y"
  let ?t = "takeWhile ?P acc" and ?d = "dropWhile ?P acc"
  have acc: "acc = ?t @ ?d" by simp
  have S: "sorted (map f (rev ?d) @ map f (rev ?t))"
    using assms by (subst (asm) acc) (simp only: rev_append map_append)
  have t: "\<And>y. y \<in> set ?t \<Longrightarrow> f x < f y" by (rule set_takeWhileD[THEN conjunct2])
  have d: "\<And>y. y \<in> set ?d \<Longrightarrow> f y \<le> f x"
  proof (cases ?d)
    case Nil
    then show "\<And>y. y \<in> set ?d \<Longrightarrow> f y \<le> f x" by simp
  next
    case (Cons z zs)
    then have z: "f z \<le> f x" using hd_dropWhile[of ?P acc] by (auto simp: not_less)
    have "sorted (map f (rev (z # zs)))" using S Cons by (simp add: sorted_append)
    then have "\<And>y. y \<in> set zs \<Longrightarrow> f y \<le> f z" by (auto simp: sorted_append)
    then show "\<And>y. y \<in> set ?d \<Longrightarrow> f y \<le> f x"
      using z Cons by (metis order_trans set_ConsD)
  qed
  show ?thesis
    using S t d by (auto simp: sorted_append dest: less_imp_le)
qed

lemma filter_insert_desc:
  fixes f :: "'a \<Rightarrow> 'k::linorder"
  shows "filter (\<lambda>y. f y = k) (rev (takeWhile (\<lambda>y. f x < f y) acc @ x # dropWhile (\<lambda>y. f x < f y) acc))
       = filter (\<lambda>y. f y = k) (rev acc @ [x])"
proof -
  let ?P = "\<lambda>y. f x < f y"
  let ?t = "takeWhile ?P acc" and ?d = "dropWhile ?P acc"
  have acc: "rev acc = rev ?d @ rev ?t"
    by (metis rev_append takeWhile_dropWhile_id)
  have t: "\<And>y. y \<in> set ?t \<Longrightarrow> f x < f y" by (rule set_takeWhileD[THEN conjunct2])
  show ?thesis
  proof (cases "f x = k")
    case True
    then have "filter (\<lambda>y. f y = k) (rev ?t) = []"
      using t by (fastforce simp: filter_empty_conv)
    then show ?thesis using True by (simp add: acc)
  next
    case False
    then show ?thesis by (simp add: acc)
  qed
qed

lemma insertionSort_key:
  fixes f :: "'a \<Rightarrow> 'k::linorder"
  assumes "\<And>x y. x \<in> set xs \<union> set acc \<Longrightarrow> y \<in> set xs \<union> set acc \<Longrightarrow> lt x y = Inr (f x < f y)"
    and "sorted (map f (rev acc))"
  shows "\<exists>r. insertionSort lt xs acc = Inr r \<and> sorted (map f r) \<and> mset r = mset acc + mset xs
           \<and> (\<forall>k. filter (\<lambda>y. f y = k) r = filter (\<lambda>y. f y = k) (rev acc @ xs))"
  using assms
proof (induction xs arbitrary: acc)
  case Nil
  then show ?case by simp
next
  case (Cons x xs)
  let ?acc' = "takeWhile (\<lambda>y. f x < f y) acc @ x # dropWhile (\<lambda>y. f x < f y) acc"
  have ib: "insertBack lt x acc = Inr ?acc'"
    by (rule insertBack_key) (simp add: Cons.prems(1))
  have set': "set ?acc' = insert x (set acc)"
  proof -
    have "mset ?acc' = add_mset x (mset (takeWhile (\<lambda>y. f x < f y) acc @ dropWhile (\<lambda>y. f x < f y) acc))"
      by (simp only: mset_append mset.simps) simp
    then have "mset ?acc' = add_mset x (mset acc)" by simp
    then show ?thesis by (metis set_mset_add_mset_insert set_mset_mset)
  qed
  have ms': "mset ?acc' = add_mset x (mset acc)"
  proof -
    have "mset ?acc' = add_mset x (mset (takeWhile (\<lambda>y. f x < f y) acc @ dropWhile (\<lambda>y. f x < f y) acc))"
      by (simp only: mset_append mset.simps) simp
    then show ?thesis by simp
  qed
  have P: "\<And>a b. a \<in> set xs \<union> set ?acc' \<Longrightarrow> b \<in> set xs \<union> set ?acc' \<Longrightarrow> lt a b = Inr (f a < f b)"
    using Cons.prems(1) unfolding set' by auto
  from Cons.IH[OF P sorted_insert_desc[OF Cons.prems(2)]]
  obtain r where r: "insertionSort lt xs ?acc' = Inr r" "sorted (map f r)"
    "mset r = mset ?acc' + mset xs"
    "\<And>k. filter (\<lambda>y. f y = k) r = filter (\<lambda>y. f y = k) (rev ?acc' @ xs)"
    by blast
  have "insertionSort lt (x # xs) acc = Inr r" using ib r(1) by simp
  moreover have "mset r = mset acc + mset (x # xs)" using r(3) ms' by simp
  moreover have "filter (\<lambda>y. f y = k) r = filter (\<lambda>y. f y = k) (rev acc @ x # xs)" for k
  proof -
    have "filter (\<lambda>y. f y = k) r = filter (\<lambda>y. f y = k) (rev ?acc') @ filter (\<lambda>y. f y = k) xs"
      by (simp only: r(4) filter_append)
    also have "\<dots> = filter (\<lambda>y. f y = k) (rev acc @ [x]) @ filter (\<lambda>y. f y = k) xs"
      by (simp only: filter_insert_desc)
    also have "\<dots> = filter (\<lambda>y. f y = k) (rev acc @ x # xs)"
      by simp
    finally show ?thesis .
  qed
  ultimately show ?case using r(2) by blast
qed

subsection \<open>The comparison of \<open>focusExisting\<close>\<close>

lemma lessMRU_rank:
  assumes "Node_Visible a \<noteq> None" "Node_Visible b \<noteq> None"
  shows "lessMRU idx a b = Inr (mru_rank idx a < mru_rank idx b)"
proof -
  obtain v0 v1 where v: "Node_Visible a = Some v0" "Node_Visible b = Some v1"
    using assms by auto
  show ?thesis
    by (cases v0; cases v1; cases "idx (Node_ID a)"; cases "idx (Node_ID b)")
       (simp_all add: lessMRU_def mru_rank_def v Let_def)
qed

lemma sorts_before_rank: "sorts_before idx a b \<longleftrightarrow> mru_rank idx a < mru_rank idx b"
  by (cases "Node_Visible a = Some True"; cases "Node_Visible b = Some True";
      cases "idx (Node_ID a)"; cases "idx (Node_ID b)")
     (simp_all add: sorts_before_def mru_rank_def)

lemma tied_rank: "tied idx a b \<longleftrightarrow> mru_rank idx b = mru_rank idx a"
  by (auto simp: tied_def sorts_before_rank)

lemma SortStableFunc_lessMRU:
  assumes V: "\<forall>n \<in> set ms. Node_Visible n \<noteq> None"
  shows "\<exists>r. SortStableFunc ms (lessMRU idx) = Inr r
          \<and> mset r = mset ms
          \<and> sorted_wrt (\<lambda>a b. \<not> sorts_before idx b a) r
          \<and> (\<forall>n. filter (tied idx n) r = filter (tied idx n) ms)"
proof -
  have P: "\<And>x y. x \<in> set ms \<union> set [] \<Longrightarrow> y \<in> set ms \<union> set [] \<Longrightarrow>
            lessMRU idx x y = Inr (mru_rank idx x < mru_rank idx y)"
    using V by (simp add: lessMRU_rank)
  from insertionSort_key[of ms "[]" "lessMRU idx" "mru_rank idx", OF P]
  obtain r where r: "insertionSort (lessMRU idx) ms [] = Inr r" "sorted (map (mru_rank idx) r)"
    "mset r = mset ms"
    "\<And>k. filter (\<lambda>y. mru_rank idx y = k) r = filter (\<lambda>y. mru_rank idx y = k) ms"
    by auto
  have "sorted_wrt (\<lambda>a b. mru_rank idx a \<le> mru_rank idx b) r"
    using r(2) by (simp add: sorted_map)
  then have "sorted_wrt (\<lambda>a b. \<not> sorts_before idx b a) r"
    by (simp add: sorts_before_rank not_less)
  moreover have "filter (tied idx n) r = filter (tied idx n) ms" for n
    using r(4)[of "mru_rank idx n"] by (simp add: tied_rank[abs_def])
  ultimately show ?thesis using r(1,3) by (auto simp: SortStableFunc_def)
qed

lemma example_select:
  "treeSelect example_tree (pick None ''app'') = [w_hidden, w_unlisted, w_recent]"
  by (simp add: treeSelect_filter example_tree_def pick_def w_hidden_def w_unlisted_def w_recent_def)

lemma example_idx:
  "idToMRUIdx_of example_mru = [13 \<mapsto> 0, 14 \<mapsto> 1, 11 \<mapsto> 2]"
  by (simp add: idToMRUIdx_of_def example_mru_def numeral_2_eq_2)

lemma example_sort:
  "SortStableFunc [w_hidden, w_unlisted, w_recent] (lessMRU (idToMRUIdx_of example_mru))
     = Inr [w_recent, w_unlisted, w_hidden]"
  by (simp add: example_idx SortStableFunc_def lessMRU_def w_hidden_def w_unlisted_def w_recent_def)

text \<open>The ranking of \<open>focusExisting\<close> when every match carries a visibility flag, and the
  example of the specification.\<close>

lemma focus_ranking:
  assumes M: "matches = treeSelect root pck" and N: "matches \<noteq> []"
    and V: "\<forall>n \<in> set matches. Node_Visible n \<noteq> None"
  shows "\<exists>ranked. SortStableFunc matches (lessMRU idx) = Inr ranked
          \<and> focusExisting root idx pck = Inr (True, RunFocus (Node_ID (hd ranked)))
          \<and> mset ranked = mset matches
          \<and> sorted_wrt (\<lambda>a b. \<not> sorts_before idx b a) ranked
          \<and> (\<forall>n. filter (tied idx n) ranked = filter (tied idx n) matches)"
proof -
  from SortStableFunc_lessMRU[OF V, of idx] obtain r where
    r: "SortStableFunc matches (lessMRU idx) = Inr r" "mset r = mset matches"
      "sorted_wrt (\<lambda>a b. \<not> sorts_before idx b a) r"
      "\<forall>n. filter (tied idx n) r = filter (tied idx n) matches"
    by blast
  have "r \<noteq> []" using r(2) N by auto
  then have "r ! 0 = hd r" by (simp add: hd_conv_nth)
  then have "focusExisting root idx pck = Inr (True, RunFocus (Node_ID (hd r)))"
    using r(1) N M by (simp add: focusExisting_def Let_def)
  then show ?thesis using r by blast
qed

lemma focus_ranking_example:
  "treeSelect example_tree (pick None ''app'') = [w_hidden, w_unlisted, w_recent]
   \<and> SortStableFunc [w_hidden, w_unlisted, w_recent] (lessMRU (idToMRUIdx_of example_mru))
       = Inr [w_recent, w_unlisted, w_hidden]
   \<and> focusExisting example_tree (idToMRUIdx_of example_mru) (pick None ''app'')
       = Inr (True, RunFocus 13)"
proof -
  have M: "[w_hidden, w_unlisted, w_recent] = treeSelect example_tree (pick None ''app'')"
    by (simp add: example_select)
  have N: "[w_hidden, w_unlisted, w_recent] \<noteq> []" by simp
  have V: "\<forall>n \<in> set [w_hidden, w_unlisted, w_recent]. Node_Visible n \<noteq> None"
    by (auto simp: w_hidden_def w_unlisted_def w_recent_def)
  from focus_ranking[OF M N V, of "idToMRUIdx_of example_mru"]
  have "focusExisting example_tree (idToMRUIdx_of example_mru) (pick None ''app'')
          = Inr (True, RunFocus (Node_ID w_recent))"
    by (auto simp: example_sort)
  then show ?thesis
    by (simp add: example_select example_sort) (simp add: w_recent_def)
qed

subsection \<open>\<open>IndexFunc\<close> and the example trees\<close>

lemma IndexFunc_first:
  "i < length xs \<Longrightarrow> P (xs ! i) \<Longrightarrow> (\<And>j. j < i \<Longrightarrow> \<not> P (xs ! j)) \<Longrightarrow> IndexFunc xs P = int i"
proof (induction xs arbitrary: i)
  case Nil
  then show ?case by simp
next
  case (Cons x xs)
  show ?case
  proof (cases i)
    case 0
    with Cons.prems show ?thesis by simp
  next
    case (Suc k)
    have nx: "\<not> P x" using Cons.prems(3)[of 0] Suc by simp
    have "IndexFunc xs P = int k"
    proof (rule Cons.IH)
      show "k < length xs" using Cons.prems(1) Suc by simp
      show "P (xs ! k)" using Cons.prems(2) Suc by simp
      show "\<not> P (xs ! j)" if "j < k" for j
        using Cons.prems(3)[of "Suc j"] that Suc by simp
    qed
    then show ?thesis using nx Suc by (simp add: Let_def)
  qed
qed

lemma IndexFunc_distinct:
  assumes "i < length xs" "distinct (map g xs)"
  shows "IndexFunc xs (\<lambda>n. g n = g (xs ! i)) = int i"
proof (rule IndexFunc_first)
  show "i < length xs" by fact
  show "g (xs ! i) = g (xs ! i)" by simp
  fix j assume ji: "j < i"
  then have "map g xs ! j \<noteq> map g xs ! i"
    using assms by (auto simp: distinct_conv_nth)
  then show "g (xs ! j) \<noteq> g (xs ! i)" using assms ji by simp
qed

lemma select_ABC: "treeSelect tree_ABC (sameApp ''foot'') = [win_A, win_B, win_C]"
  by (simp add: treeSelect_filter tree_ABC_def sameApp_def win_A_def win_B_def win_C_def)

subsection \<open>The loop of \<open>cmdPrev\<close> and the predicates\<close>

lemma prev_loop_find:
  "prev_loop fid ws = (case find (\<lambda>w. ID w \<noteq> fid) ws of
                         Some w \<Rightarrow> RunFocus (ID w)
                       | None \<Rightarrow> LogLine ''No other window to focus'')"
  by (induction ws) auto

lemma pick_type_match:
  "pick titleRE appID n = type_match titleRE (if appID = [] then None else Some appID) n"
  by (cases titleRE; cases "Node_AppID n") (auto simp: pick_def type_match_def)

lemma sameApp_eq: "sameApp a n \<longleftrightarrow> Node_AppID n = Some a"
  by (cases "Node_AppID n") (auto simp: sameApp_def)

lemma selection_by_type_match:
  "treeSelect root (pick titleRE appID)
     = filter (type_match titleRE (if appID = [] then None else Some appID)) (tree_nodes root)
   \<and> treeSelect root (sameApp focusedAppID)
     = filter (\<lambda>n. Node_AppID n = Some focusedAppID) (tree_nodes root)"
  by (simp add: treeSelect_filter pick_type_match[abs_def] sameApp_eq[abs_def])


section \<open>The lock file\<close>

lemma flags_nonblocking: "(LOCK_EX OR LOCK_NB) AND LOCK_NB \<noteq> 0" "(LOCK_EX OR LOCK_NB) AND LOCK_UN = 0"
  by (simp_all add: LOCK_EX_def LOCK_NB_def LOCK_UN_def)

lemma Flock_nonblocking: "Flock f (LOCK_EX OR LOCK_NB) os \<noteq> Waits"
  by (simp add: Flock_def flags_nonblocking split: option.splits)

lemma lockFile_never_blocks: "fst (lockFile file os) \<noteq> Blocked"
  using Flock_nonblocking
  by (auto simp: lockFile_def split: sum.splits flock_result.splits option.splits prod.splits)

lemma lockFile_Locked:
  assumes "lockFile file os = (Locked f, os1)"
  shows "f = next_fd os" "openable os file"
    "os1 = os\<lparr>descriptions := (descriptions os)(f \<mapsto> file), next_fd := Suc f, flocks := (flocks os)(file \<mapsto> f)\<rparr>"
  using assms
  by (auto simp: lockFile_def OpenFile_def Flock_def flags_nonblocking
      split: if_splits sum.splits flock_result.splits option.splits prod.splits)

lemma first_start: "lockFile ''/run/user/1000/swayctrl.lock'' os_idle =
   (Locked 3, os_idle\<lparr>descriptions := [3 \<mapsto> ''/run/user/1000/swayctrl.lock''], next_fd := 4,
                        flocks := [''/run/user/1000/swayctrl.lock'' \<mapsto> 3]\<rparr>)"
  by (simp add: lockFile_def OpenFile_def Flock_def flags_nonblocking os_idle_def)

section \<open>The properties of the specification\<close>

subsection \<open>The focus-history list\<close>

text \<open>
  Claim C1: after any sequence of \<open>bringFront\<close> and \<open>delete\<close> calls on the empty list, the
  identifiers of the snapshot are those inserted and not removed afterwards, each once.
  Lemma \<open>snapshot_of_calls\<close> proves this for the records of the list and for the result
  of \<open>all\<close> as long as at most 100 identifiers are in the list. With 101 identifiers
  inserted and none removed, \<open>all\<close> panics and returns no sequence: the claim fails on the
  code through the counter of \<open>all\<close>, which the source marks \<open>FIXME: delete\<close>.
\<close>

theorem snapshot_omits_101_inserted:
  "inserted_not_removed calls101 = word_of_nat ` {0..<101}
   \<and> card (inserted_not_removed calls101) = 101
   \<and> all (run calls101) = Inl (Panic ''boom'')"
  using card_calls101 snapshot_of_calls[of calls101]
  by (simp add: calls101_def inserted_not_removed_BringFronts)

text \<open>
  Claim C2: after \<open>bringFront wid appID\<close> the record of \<open>wid\<close> is the head object and
  carries \<open>appID\<close>, the other records follow in their former order, and when \<open>wid\<close>
  was the head before, the order of the whole list and the head pointer are unchanged.
\<close>

theorem bringFront_moves_to_head:
  "(let l = run cs; l' = bringFront wid appID l
    in entries l' = \<lparr>ID = wid, AppID = appID\<rparr> # filter (\<lambda>w. ID w \<noteq> wid) (entries l)
       \<and> (\<exists>e. l_head l' = Some e \<and> e_id (elts l' e) = wid \<and> e_appID (elts l' e) = appID)
       \<and> filter (\<lambda>w. ID w \<noteq> wid) (entries l') = filter (\<lambda>w. ID w \<noteq> wid) (entries l)
       \<and> (\<forall>w ws. entries l = w # ws \<and> ID w = wid \<longrightarrow>
            entries l' = \<lparr>ID = wid, AppID = appID\<rparr> # ws
            \<and> map ID (entries l') = map ID (entries l)
            \<and> l_head l' = l_head l))"
proof -
  obtain as where L: "linked (run cs) as" using linked_run by blast
  let ?l = "run cs" and ?l' = "bringFront wid appID (run cs)"
  have E: "entries ?l' = \<lparr>ID = wid, AppID = appID\<rparr> # filter (\<lambda>w. ID w \<noteq> wid) (entries ?l)"
    by (rule entries_bringFront[OF L])
  have H: "\<exists>e. l_head ?l' = Some e \<and> e_id (elts ?l' e) = wid \<and> e_appID (elts ?l' e) = appID"
    using head_bringFront[OF L, of wid appID] head_record_bringFront[OF L, of wid appID]
    by (simp add: view_def)
  have F: "filter (\<lambda>w. ID w \<noteq> wid) (entries ?l') = filter (\<lambda>w. ID w \<noteq> wid) (entries ?l)"
    by (simp add: E)
  have A: "entries ?l' = \<lparr>ID = wid, AppID = appID\<rparr> # ws
            \<and> map ID (entries ?l') = map ID (entries ?l) \<and> l_head ?l' = l_head ?l"
    if W: "entries ?l = w # ws" "ID w = wid" for w ws
  proof -
    have "distinct (map ID (entries ?l))" using ids_entries_run[of cs] by simp
    then have "wid \<notin> ID ` set ws" using W by auto
    then have ws: "filter (\<lambda>w. ID w \<noteq> wid) ws = ws"
      by (auto simp: filter_id_conv)
    obtain e where e: "l_head ?l = Some e" "l_m ?l wid = Some e"
      using head_in_map[OF L W(1)] W(2) by auto
    show ?thesis
      using E W ws bringFront_at_head[OF e, of appID] by simp
  qed
  show ?thesis
    unfolding Let_def using E H F A by blast
qed

theorem bringFront_moves_to_head_witness:
  "entries (run [BringFront 1 ''a'', BringFront 2 ''b'']) = [\<lparr>ID = 2, AppID = ''b''\<rparr>, \<lparr>ID = 1, AppID = ''a''\<rparr>]
   \<and> entries (bringFront 2 ''c'' (run [BringFront 1 ''a'', BringFront 2 ''b''])) = [\<lparr>ID = 2, AppID = ''c''\<rparr>, \<lparr>ID = 1, AppID = ''a''\<rparr>]
   \<and> entries (bringFront 1 ''c'' (run [BringFront 1 ''a'', BringFront 2 ''b''])) = [\<lparr>ID = 1, AppID = ''c''\<rparr>, \<lparr>ID = 2, AppID = ''b''\<rparr>]"
  using bringFront_moves_to_head[of "[BringFront 1 ''a'', BringFront 2 ''b'']" 2 "''c''"]
    bringFront_moves_to_head[of "[BringFront 1 ''a'', BringFront 2 ''b'']" 1 "''c''"]
  by (simp add: entries_two Let_def)

text \<open>
  Claim C3: \<open>all\<close>, \<open>bringFront\<close> and \<open>delete\<close> never fail, and \<open>all\<close> returns the whole
  sequence for a list of any size. \<open>bringFront\<close> and \<open>delete\<close> have no failing branch,
  but on the list of 101 windows \<open>all\<close> panics, and so does the query handler of the
  daemon: the code does not do what the claim says.
\<close>

theorem all_panics_on_101_windows:
  "length (entries (run calls101)) = 101
   \<and> all (run calls101) = Inl (Panic ''boom'')
   \<and> handle \<lparr>h_verbose = False, h_list = run calls101\<rparr> = Inl (Panic ''boom'')"
  using card_calls101 all_run[of calls101] by (simp add: length_entries_run handle_def)

text \<open>
  Claim C7: \<open>delete\<close> of an identifier that is not in the list leaves the whole state as it
  is; and \<open>delete wid\<close> followed by \<open>bringFront wid appID\<close> gives the list that
  \<open>bringFront wid appID\<close> gives after the same calls without those that name \<open>wid\<close>,
  with a newly allocated object, carrying \<open>wid\<close> and \<open>appID\<close>, at the head.
\<close>

theorem remove_then_bringFront:
  "(let l = run cs; l' = bringFront wid appID (delete wid l)
    in (wid \<notin> ID ` set (entries l) \<longrightarrow> delete wid l = l)
       \<and> entries l' = \<lparr>ID = wid, AppID = appID\<rparr> # filter (\<lambda>w. ID w \<noteq> wid) (entries l)
       \<and> entries l' = entries (bringFront wid appID (run (filter (\<lambda>c. call_id c \<noteq> wid) cs)))
       \<and> l_head l' = Some (nalloc l)
       \<and> view (elts l') (nalloc l) = \<lparr>ID = wid, AppID = appID\<rparr>)"
proof -
  let ?l = "run cs"
  let ?d = "delete wid ?l"
  let ?l' = "bringFront wid appID ?d"
  let ?f = "run (filter (\<lambda>c. call_id c \<noteq> wid) cs)"
  obtain as where L: "linked ?l as" using linked_run by blast
  obtain bs where F: "linked ?f bs" using linked_run by blast
  have D: "linked ?d (filter (\<lambda>a. ids (elts ?l) a \<noteq> wid) as)"
    by (rule delete_linked(1)[OF L])
  have 1: "wid \<notin> ID ` set (entries ?l) \<longrightarrow> ?d = ?l"
    using absent_iff[OF L, of wid] delete_absent by blast
  have 2: "entries ?l' = \<lparr>ID = wid, AppID = appID\<rparr> # filter (\<lambda>w. ID w \<noteq> wid) (entries ?l)"
    by (simp add: entries_bringFront[OF D] entries_delete[OF L])
  have 3: "entries ?l' = entries (bringFront wid appID ?f)"
    by (simp add: 2 entries_bringFront[OF F] entries_run_forget)
  have e: "fst (lookup_or_new wid ?d) = nalloc ?l"
    using lookup_or_new_absent[OF l_m_delete, of wid ?l] delete_linked(4)[OF L, of wid] by simp
  have 4: "l_head ?l' = Some (nalloc ?l)"
    using head_bringFront[OF D, of wid appID] e by simp
  have 5: "view (elts ?l') (nalloc ?l) = \<lparr>ID = wid, AppID = appID\<rparr>"
    using head_record_bringFront[OF D, of wid appID] e by simp
  show ?thesis
    unfolding Let_def using 1 2 3 4 5 by blast
qed

theorem remove_then_bringFront_witness:
  "delete 3 (run [BringFront 1 ''a'', BringFront 2 ''b'']) = run [BringFront 1 ''a'', BringFront 2 ''b'']
   \<and> entries (bringFront 1 ''c'' (delete 1 (run [BringFront 1 ''a'', BringFront 2 ''b''])))
       = [\<lparr>ID = 1, AppID = ''c''\<rparr>, \<lparr>ID = 2, AppID = ''b''\<rparr>]"
  using remove_then_bringFront[where wid = 3 and cs = "[BringFront 1 ''a'', BringFront 2 ''b'']" and appID = "''c''"]
    remove_then_bringFront[where wid = 1 and cs = "[BringFront 1 ''a'', BringFront 2 ''b'']" and appID = "''c''"]
  by (simp add: entries_two Let_def)

subsection \<open>The event handler of the daemon\<close>

text \<open>
  Claim C10: a focus event whose container has a nil or empty application id makes the
  handler call \<open>bringFront\<close> with \<open>''?''\<close>, so that every later snapshot shows the window
  with \<open>''?''\<close>. The snapshot after a close event of the window does not show it, and the
  snapshot after a focus event that brings an application id shows that id.
\<close>

theorem later_events_replace_question_mark:
  "subscribe [focus7, close7] (newDaemonHandler False)
     = Inr \<lparr>h_verbose = False, h_list = run [BringFront 7 ''?'', Remove 7]\<rparr>
   \<and> handle \<lparr>h_verbose = False, h_list = run [BringFront 7 ''?'', Remove 7]\<rparr> = Inr []
   \<and> subscribe [focus7, refocus7] (newDaemonHandler False)
     = Inr \<lparr>h_verbose = False, h_list = run [BringFront 7 ''?'', BringFront 7 ''foot'']\<rparr>
   \<and> handle \<lparr>h_verbose = False, h_list = run [BringFront 7 ''?'', BringFront 7 ''foot'']\<rparr>
     = Inr [\<lparr>ID = 7, AppID = ''foot''\<rparr>]"
proof -
  have e1: "entries (run [BringFront 7 ''?'']) = [\<lparr>ID = 7, AppID = ''?''\<rparr>]"
    using entries_run_snoc(1)[of "[]" 7 "''?''"] by (simp add: run_def entries_def newList_def)
  have e2: "entries (run [BringFront 7 ''?'', Remove 7]) = []"
    using entries_run_snoc(2)[of "[BringFront 7 ''?'']" 7] by (simp add: e1)
  have e3: "entries (run [BringFront 7 ''?'', BringFront 7 ''foot'']) = [\<lparr>ID = 7, AppID = ''foot''\<rparr>]"
    using entries_run_snoc(1)[of "[BringFront 7 ''?'']" 7 "''foot''"] by (simp add: e1)
  have s1: "subscribe [focus7, close7] (newDaemonHandler False)
     = Inr \<lparr>h_verbose = False, h_list = run [BringFront 7 ''?'', Remove 7]\<rparr>"
    by (simp add: Window_def focus7_def close7_def verbose_log_def newDaemonHandler_def run_def)
  have s2: "subscribe [focus7, refocus7] (newDaemonHandler False)
     = Inr \<lparr>h_verbose = False, h_list = run [BringFront 7 ''?'', BringFront 7 ''foot'']\<rparr>"
    by (simp add: Window_def focus7_def refocus7_def verbose_log_def newDaemonHandler_def run_def)
  have h1: "handle \<lparr>h_verbose = False, h_list = run [BringFront 7 ''?'', Remove 7]\<rparr> = Inr []"
    using all_run[of "[BringFront 7 ''?'', Remove 7]"] by (simp add: handle_def e2)
  have h2: "handle \<lparr>h_verbose = False, h_list = run [BringFront 7 ''?'', BringFront 7 ''foot'']\<rparr>
     = Inr [\<lparr>ID = 7, AppID = ''foot''\<rparr>]"
    using all_run[of "[BringFront 7 ''?'', BringFront 7 ''foot'']"] by (simp add: handle_def e3)
  show ?thesis using s1 s2 h1 h2 by simp
qed

text \<open>
  Claim C10 as amended: a focus event whose container has a nil or empty application id
  makes the handler call \<open>bringFront\<close> with \<open>''?''\<close>. The record \<open>(id, ''?'')\<close> is then the
  first of the list, and every query answered later shows it, until an event closes the
  window or focuses it with an application id that is set and not empty.
\<close>

theorem unknown_app_id_shown_as_question_mark:
  assumes S: "subscribe evs (newDaemonHandler v) = Inr h"
    and F: "ev_Change e = WindowFocus"
    and A: "Node_AppID (ev_Container e) = None \<or> Node_AppID (ev_Container e) = Some []"
    and W: "Window e h = Inr h1"
  shows "h_list h1 = bringFront (Node_ID (ev_Container e)) ''?'' (h_list h)
     \<and> (\<exists>ws. entries (h_list h1) = \<lparr>ID = Node_ID (ev_Container e), AppID = ''?''\<rparr> # ws)
     \<and> (\<forall>evs' h2 ws. (\<forall>e' \<in> set evs'. \<not> retires (Node_ID (ev_Container e)) e')
            \<and> subscribe evs' h1 = Inr h2 \<and> handle h2 = Inr ws
          \<longrightarrow> \<lparr>ID = Node_ID (ev_Container e), AppID = ''?''\<rparr> \<in> set ws)"
proof -
  let ?wid = "Node_ID (ev_Container e)"
  have "linked (h_list (newDaemonHandler v)) []"
    by (simp add: newDaemonHandler_def linked_newList)
  from subscribe_linked[OF S this] obtain as where L: "linked (h_list h) as" by blast
  have 1: "h_list h1 = bringFront ?wid ''?'' (h_list h)"
    using W Window_focus_unknown_app[OF F A, of h] by (auto dest!: verbose_log_Inr)
  have E: "entries (h_list h1) = \<lparr>ID = ?wid, AppID = ''?''\<rparr> # filter (\<lambda>w. ID w \<noteq> ?wid) (entries (h_list h))"
    by (simp add: 1 entries_bringFront[OF L])
  from Window_linked[OF W L] obtain bs where L1: "linked (h_list h1) bs" by blast
  have 3: "\<lparr>ID = ?wid, AppID = ''?''\<rparr> \<in> set ws"
    if R: "\<forall>e' \<in> set evs'. \<not> retires ?wid e'" and S2: "subscribe evs' h1 = Inr h2"
      and H2: "handle h2 = Inr ws"
    for evs' h2 ws
  proof -
    have "\<lparr>ID = ?wid, AppID = ''?''\<rparr> \<in> set (entries (h_list h2))"
      using subscribe_keeps[OF S2 L1 R] E by simp
    moreover obtain cs where "linked (h_list h2) cs"
      using subscribe_linked[OF S2 L1] by blast
    ultimately show ?thesis using handle_linked H2 by blast
  qed
  show ?thesis using 1 E 3 by blast
qed

theorem unknown_app_id_shown_as_question_mark_witness:
  "Window focus7 (newDaemonHandler False) = Inr \<lparr>h_verbose = False, h_list = bringFront 7 ''?'' newList\<rparr>
   \<and> subscribe [title7] \<lparr>h_verbose = False, h_list = bringFront 7 ''?'' newList\<rparr>
       = Inr \<lparr>h_verbose = False, h_list = bringFront 7 ''?'' newList\<rparr>
   \<and> handle \<lparr>h_verbose = False, h_list = bringFront 7 ''?'' newList\<rparr> = Inr [\<lparr>ID = 7, AppID = ''?''\<rparr>]
   \<and> \<lparr>ID = 7, AppID = ''?''\<rparr> \<in> set [\<lparr>ID = 7, AppID = ''?''\<rparr>]"
proof -
  let ?h1 = "\<lparr>h_verbose = False, h_list = bringFront 7 ''?'' newList\<rparr>"
  have S: "subscribe [] (newDaemonHandler False) = Inr (newDaemonHandler False)" by simp
  have F: "ev_Change focus7 = WindowFocus" by (simp add: focus7_def)
  have A: "Node_AppID (ev_Container focus7) = None \<or> Node_AppID (ev_Container focus7) = Some []"
    by (simp add: focus7_def)
  have W: "Window focus7 (newDaemonHandler False) = Inr ?h1"
    by (simp add: Window_def focus7_def verbose_log_def newDaemonHandler_def)
  have R: "\<forall>e' \<in> set [title7]. \<not> retires (Node_ID (ev_Container focus7)) e'"
    by (simp add: retires_def title7_def)
  have S2: "subscribe [title7] ?h1 = Inr ?h1"
    by (simp add: Window_def title7_def)
  note T = unknown_app_id_shown_as_question_mark[OF S F A W]
  from T have "\<lparr>ID = Node_ID (ev_Container focus7), AppID = ''?''\<rparr> \<in> set [\<lparr>ID = 7, AppID = ''?''\<rparr>]"
    using R S2 handle_one by blast
  then show ?thesis using W S2 handle_one by (simp add: focus7_def)
qed

subsection \<open>Selection and ranking\<close>


text \<open>
  Claim C5: appnext collects the nodes with the application id of the focused node in
  walk order. With fewer than two of them it returns without a command; with \<open>n \<ge> 2\<close>
  of them, different objects, and the focused node at index \<open>i\<close>, it focuses the node at
  index \<open>(i + 1) mod n\<close>.
\<close>

theorem appnext_selects_next:
  assumes A: "Node_AppID f = Some a" and M: "matches = treeSelect root (sameApp a)"
  shows "(length matches < 2 \<longrightarrow> cmdAppNext root (Some f) = Inr NoCommand)
       \<and> (\<forall>i. 2 \<le> length matches \<and> i < length matches \<and> distinct (map Node_ptr matches)
               \<and> Node_ptr (matches ! i) = Node_ptr f
             \<longrightarrow> cmdAppNext root (Some f)
                   = Inr (RunFocus (Node_ID (matches ! ((i + 1) mod length matches)))))"
proof -
  have 1: "cmdAppNext root (Some f) = Inr NoCommand" if "length matches < 2"
    using that A M by (simp add: cmdAppNext_def Let_def)
  have 2: "cmdAppNext root (Some f) = Inr (RunFocus (Node_ID (matches ! ((i + 1) mod length matches))))"
    if H: "2 \<le> length matches" "i < length matches" "distinct (map Node_ptr matches)"
      "Node_ptr (matches ! i) = Node_ptr f" for i
  proof -
    have I: "IndexFunc matches (\<lambda>n. Node_ptr n = Node_ptr f) = int i"
      using IndexFunc_distinct[OF H(2,3)] H(4) by simp
    have "nat ((int i + 1) mod int (length matches)) = (i + 1) mod length matches"
      by (metis nat_int of_nat_1 of_nat_add zmod_int)
    then show ?thesis
      using H(1) A M I by (simp add: cmdAppNext_def Let_def)
  qed
  show ?thesis using 1 2 by blast
qed

theorem appnext_selects_next_witness:
  "treeSelect tree_ABC (sameApp ''foot'') = [win_A, win_B, win_C]
   \<and> cmdAppNext tree_ABC (Some win_B) = Inr (RunFocus (Node_ID win_C))
   \<and> cmdAppNext tree_ABC (Some win_C) = Inr (RunFocus (Node_ID win_A))
   \<and> cmdAppNext (Node 10 20 ''ws'' NodeWorkspace None None [] [win_A]) (Some win_A) = Inr NoCommand"
proof -
  have D: "distinct (map Node_ptr [win_A, win_B, win_C])"
    by (simp add: win_A_def win_B_def win_C_def)
  have M: "[win_A, win_B, win_C] = treeSelect tree_ABC (sameApp ''foot'')"
    by (simp add: select_ABC)
  have one: "[win_A] = treeSelect (Node 10 20 ''ws'' NodeWorkspace None None [] [win_A]) (sameApp ''foot'')"
    by (simp add: treeSelect_filter sameApp_def win_A_def)
  have aA: "Node_AppID win_A = Some ''foot''" by (simp add: win_A_def)
  have aB: "Node_AppID win_B = Some ''foot''" by (simp add: win_B_def)
  have aC: "Node_AppID win_C = Some ''foot''" by (simp add: win_C_def)
  have B: "cmdAppNext tree_ABC (Some win_B) = Inr (RunFocus (Node_ID win_C))"
    using appnext_selects_next[OF aB M, THEN conjunct2, rule_format, of 1] D by simp
  have C: "cmdAppNext tree_ABC (Some win_C) = Inr (RunFocus (Node_ID win_A))"
    using appnext_selects_next[OF aC M, THEN conjunct2, rule_format, of 2] D by simp
  have A: "cmdAppNext (Node 10 20 ''ws'' NodeWorkspace None None [] [win_A]) (Some win_A) = Inr NoCommand"
    using appnext_selects_next[OF aA one, THEN conjunct1] by simp
  show ?thesis using A B C by (simp add: select_ABC)
qed

text \<open>
  Claim C6: prev focuses the first window of the MRU list whose identifier is not the
  identifier of the focused node; when there is none, also when the list is empty, it
  writes the log line \<open>No other window to focus\<close> and does not fail.
\<close>

theorem prev_selects_first_other:
  "cmdPrev mruList (Some f) =
     Inr (case find (\<lambda>w. ID w \<noteq> Node_ID f) mruList of
            Some w \<Rightarrow> RunFocus (ID w)
          | None \<Rightarrow> LogLine ''No other window to focus'')"
  by (simp add: cmdPrev_def prev_loop_find)

theorem prev_selects_first_other_witness:
  "cmdPrev [\<lparr>ID = 21, AppID = ''foot''\<rparr>, \<lparr>ID = 22, AppID = ''foot''\<rparr>, \<lparr>ID = 23, AppID = ''foot''\<rparr>]
       (Some win_A) = Inr (RunFocus 22)
   \<and> cmdPrev [\<lparr>ID = 21, AppID = ''foot''\<rparr>] (Some win_A) = Inr (LogLine ''No other window to focus'')
   \<and> cmdPrev [] (Some win_A) = Inr (LogLine ''No other window to focus'')"
  using prev_selects_first_other[of "[\<lparr>ID = 21, AppID = ''foot''\<rparr>, \<lparr>ID = 22, AppID = ''foot''\<rparr>, \<lparr>ID = 23, AppID = ''foot''\<rparr>]" win_A]
    prev_selects_first_other[of "[\<lparr>ID = 21, AppID = ''foot''\<rparr>]" win_A]
    prev_selects_first_other[of "[]" win_A]
  by (simp add: win_A_def)


subsection \<open>The lock of the daemon\<close>

text \<open>
  Claim C9: the daemon takes an exclusive lock on the lock file without waiting. While one
  start holds the lock, a second start on the same file exits at once with the message
  that the lock file is locked, the lock stays with the first, and no call of \<open>lockFile\<close>
  waits for a holder.
\<close>

theorem second_start_fails_at_once:
  assumes "lockFile file os = (Locked f, os1)"
  shows "flocks os1 file = Some f
       \<and> fst (lockFile file os1) = Exits ''Lockfile locked (is another instance running?)''
       \<and> flocks (snd (lockFile file os1)) file = Some f
       \<and> (\<forall>p s. fst (lockFile p s) \<noteq> Blocked)"
proof -
  note L = lockFile_Locked[OF assms]
  have 1: "flocks os1 file = Some f" by (simp add: L(3))
  have 2: "fst (lockFile file os1) = Exits ''Lockfile locked (is another instance running?)''"
    using L(2) by (simp add: L(3) lockFile_def OpenFile_def Flock_def flags_nonblocking Close_def)
  have 3: "flocks (snd (lockFile file os1)) file = Some f"
    using L(2) by (simp add: L(3) lockFile_def OpenFile_def Flock_def flags_nonblocking Close_def)
  show ?thesis using 1 2 3 lockFile_never_blocks by simp
qed

theorem second_start_fails_at_once_witness:
  "lockFile ''/run/user/1000/swayctrl.lock'' os_idle =
     (Locked 3, os_idle\<lparr>descriptions := [3 \<mapsto> ''/run/user/1000/swayctrl.lock''], next_fd := 4,
                        flocks := [''/run/user/1000/swayctrl.lock'' \<mapsto> 3]\<rparr>)
   \<and> fst (lockFile ''/run/user/1000/swayctrl.lock''
         (os_idle\<lparr>descriptions := [3 \<mapsto> ''/run/user/1000/swayctrl.lock''], next_fd := 4,
                        flocks := [''/run/user/1000/swayctrl.lock'' \<mapsto> 3]\<rparr>))
       = Exits ''Lockfile locked (is another instance running?)''"
  using second_start_fails_at_once[OF first_start] first_start
  by simp

end
